theory Spec2Isabelle
  imports Main "HOL-Library.Word" "HOL-Library.Multiset"
begin

unbundle bit_operations_syntax

section \<open>Machine model\<close>

text \<open>
  The pool of \<^verbatim>\<open>memory_pool.cpp\<close> is modelled on an LP64 little-endian machine:
  \<^verbatim>\<open>size_t\<close> and pointers are 64-bit words whose arithmetic wraps, \<^verbatim>\<open>nullptr\<close> is the
  word 0, and memory is a flat array of bytes. \<^verbatim>\<open>struct Node { Node* next; }\<close> is one
  pointer, so \<^verbatim>\<open>sizeof(Node)\<close> is 8 and \<^verbatim>\<open>node->next\<close> is the eight bytes that start at
  the node's address. Every address can be read and written: an access outside every
  allocation, which the language leaves undefined and the hardware may refuse, reads and
  writes the flat memory like any other. Where a statement says that a call returns a
  block, it therefore matters that the links the call touches lie inside chunks of the
  pool (\<open>link_inside\<close> below): there the flat memory and the machine agree.
\<close>

type_synonym size_t = "64 word"
type_synonym addr = "64 word"
type_synonym byte = "8 word"
type_synonym memory = "addr \<Rightarrow> byte"

definition sizeof_Node :: size_t where
  "sizeof_Node = 8"

text \<open>\<^verbatim>\<open>node->next = v\<close>: the eight bytes at \<open>p .. p + 7\<close> receive \<open>v\<close>, lowest byte first.\<close>

definition store_next :: "memory \<Rightarrow> addr \<Rightarrow> addr \<Rightarrow> memory" where
  "store_next m p v =
     (\<lambda>a. if a - p < 8 then ucast (drop_bit (8 * unat (a - p)) v) else m a)"

text \<open>Reading \<^verbatim>\<open>node->next\<close>: the eight bytes at \<open>p .. p + 7\<close>, the one at \<open>p + 7\<close> the
  most significant.\<close>

definition load_next :: "memory \<Rightarrow> addr \<Rightarrow> addr" where
  "load_next m p = word_rcat (rev (map (\<lambda>k. m (p + of_nat k)) [0..<8]))"

text \<open>
  \<^verbatim>\<open>std::malloc\<close> is not code of the repository: it is a parameter. The oracle gives the
  result of the \<open>k\<close>-th call of the run when asked for \<open>n\<close> bytes; 0 is the null pointer
  of a failed call. The world outside the pool object is the memory, the number of
  \<^verbatim>\<open>malloc\<close> calls made so far, and the chunks handed to \<^verbatim>\<open>std::free\<close>, in order.
\<close>

type_synonym malloc_oracle = "nat \<Rightarrow> size_t \<Rightarrow> addr"

record world =
  mem :: memory
  malloc_calls :: nat
  freed :: "addr list"

section \<open>The pool\<close>

text \<open>The data members of \<^verbatim>\<open>class MemoryPool\<close>. The loads and compare-and-swaps of
  \<^verbatim>\<open>std::atomic<Node*> freeList\<close> happen one at a time, so the head is a plain pointer. In
  this section one thread runs each call from its beginning to its end; the section on
  threads takes the calls apart.\<close>

record MemoryPool =
  freeList :: addr
  allocatedChunks :: "addr list"
  blockSize :: size_t
  blockCount :: size_t

type_synonym state = "world \<times> MemoryPool"

datatype error = bad_alloc

text \<open>
  \<^verbatim>\<open>deallocate(ptr)\<close>: the loop stores the head it read in \<^verbatim>\<open>node->next\<close> and tries to
  swing the head to the node. With one thread the head cannot change between the load and
  the compare-and-swap, so a \<^verbatim>\<open>compare_exchange_weak\<close> that fails does so spuriously,
  reloads the same head and repeats the same store; what the call leaves behind is the
  state after its one successful iteration.
\<close>

definition deallocate :: "addr \<Rightarrow> state \<Rightarrow> state" where
  "deallocate ptr s =
     (case s of (w, p) \<Rightarrow>
        (w\<lparr>mem := store_next (mem w) ptr (freeList p)\<rparr>, p\<lparr>freeList := ptr\<rparr>))"

text \<open>The \<^verbatim>\<open>for\<close> loop of \<^verbatim>\<open>allocateChunk\<close>, from index \<open>i\<close> on:
  \<^verbatim>\<open>for (; i < blockCount; ++i) deallocate(block + i * blockSize);\<close>
  The index stays below \<^verbatim>\<open>blockCount\<close>, so it never wraps; the product and the pointer
  sum are computed in 64 bits.\<close>

function populate :: "addr \<Rightarrow> nat \<Rightarrow> state \<Rightarrow> state" where
  "populate block i s =
     (if i < unat (blockCount (snd s))
      then populate block (Suc i) (deallocate (block + of_nat i * blockSize (snd s)) s)
      else s)"
  by pat_completeness auto
termination
  by (relation "measure (\<lambda>(block, i, s). unat (blockCount (snd s)) - i)")
     (auto simp: deallocate_def split: prod.splits)

text \<open>
  \<^verbatim>\<open>allocateChunk()\<close>: a failed \<^verbatim>\<open>malloc\<close> throws before the pool is touched; otherwise the
  chunk is recorded and then carved. The result carries the state in both cases, since
  an exception leaves the object as it is. The \<^verbatim>\<open>push_back\<close> on the chunk vector is taken
  to succeed: the vector's own storage is not part of the model.
\<close>

definition allocateChunk :: "malloc_oracle \<Rightarrow> state \<Rightarrow> (error + unit) \<times> state" where
  "allocateChunk M s =
     (case s of (w, p) \<Rightarrow>
        let chunkSize = blockSize p * blockCount p;
            chunk = M (malloc_calls w) chunkSize;
            w' = w\<lparr>malloc_calls := Suc (malloc_calls w)\<rparr>
        in if chunk = 0 then (Inl bad_alloc, (w', p))
           else (Inr (), populate chunk 0 (w', p\<lparr>allocatedChunks := allocatedChunks p @ [chunk]\<rparr>)))"

text \<open>
  \<^verbatim>\<open>allocate()\<close>: with a non-null head the compare-and-swap pops it (again, a spurious
  failure only repeats the iteration); with a null head the pool grows and the function
  calls itself. Nothing bounds that recursion in the source, so a call that never
  returns is the value \<open>None\<close>. The argument \<^verbatim>\<open>head->next\<close> is read from the flat memory:
  at a head whose link does not lie inside a chunk, a machine may stop the call where
  this function goes on.
\<close>

partial_function (option) allocate :: "malloc_oracle \<Rightarrow> state \<Rightarrow> ((error + addr) \<times> state) option" where
  "allocate M s =
     (if freeList (snd s) \<noteq> 0
      then Some (Inr (freeList (snd s)),
                 (fst s, (snd s)\<lparr>freeList := load_next (mem (fst s)) (freeList (snd s))\<rparr>))
      else (case allocateChunk M s of
              (Inl e, s') \<Rightarrow> Some (Inl e, s')
            | (Inr u, s') \<Rightarrow> allocate M s'))"

text \<open>
  The same function with a bound on how deep \<^verbatim>\<open>allocate\<close> may call itself: \<open>d\<close> counts the
  activations of \<^verbatim>\<open>allocate\<close> that may be open at once, and \<open>None\<close> says that the bound
  was too small.
\<close>

fun allocate_within :: "nat \<Rightarrow> malloc_oracle \<Rightarrow> state \<Rightarrow> ((error + addr) \<times> state) option" where
  "allocate_within 0 M s = None"
| "allocate_within (Suc d) M s =
     (if freeList (snd s) \<noteq> 0
      then Some (Inr (freeList (snd s)),
                 (fst s, (snd s)\<lparr>freeList := load_next (mem (fst s)) (freeList (snd s))\<rparr>))
      else (case allocateChunk M s of
              (Inl e, s') \<Rightarrow> Some (Inl e, s')
            | (Inr u, s') \<Rightarrow> allocate_within d M s'))"

text \<open>
  The constructor. Its parameter \<^verbatim>\<open>blockSize\<close> has the name of the data member, so the
  member is initialised from the parameter and the assignment
  \<^verbatim>\<open>blockSize = sizeof(Node)\<close> in the body changes the parameter, which nothing reads
  afterwards; \<^verbatim>\<open>allocateChunk\<close> reads the member.
\<close>

definition MemoryPool_ctor :: "malloc_oracle \<Rightarrow> world \<Rightarrow> size_t \<Rightarrow> size_t \<Rightarrow> (error + unit) \<times> state" where
  "MemoryPool_ctor M w blockSize_arg blockCount_arg =
     (let this = \<lparr>freeList = 0, allocatedChunks = [],
                  blockSize = blockSize_arg, blockCount = blockCount_arg\<rparr>;
          blockSize_param = (if blockSize_arg < sizeof_Node then sizeof_Node else blockSize_arg)
      in allocateChunk M (w, this))"

text \<open>The destructor hands every chunk to \<^verbatim>\<open>std::free\<close>.\<close>

definition MemoryPool_dtor :: "state \<Rightarrow> world" where
  "MemoryPool_dtor s = (case s of (w, p) \<Rightarrow> w\<lparr>freed := freed w @ allocatedChunks p\<rparr>)"

section \<open>Ownership transfer\<close>

text \<open>
  The move constructor builds a new pool from \<open>other\<close> and returns it with what is left
  of \<open>other\<close>. The members are initialised in their declaration order; a \<^verbatim>\<open>std::vector\<close>
  that has been moved from by the move constructor is empty.
\<close>

definition move_ctor :: "MemoryPool \<Rightarrow> MemoryPool \<times> MemoryPool" where
  "move_ctor other =
     (let this = \<lparr>freeList = freeList other, allocatedChunks = allocatedChunks other,
                  blockSize = blockSize other, blockCount = blockCount other\<rparr>;
          other1 = other\<lparr>allocatedChunks := []\<rparr>;
          other2 = other1\<lparr>freeList := 0\<rparr>;
          other3 = other2\<lparr>blockSize := 0\<rparr>;
          other4 = other3\<lparr>blockCount := 0\<rparr>
      in (this, other4))"

text \<open>
  Move assignment compares the addresses of its two operands, so the pools live in a
  store of objects here, addressed by number. The statements of the body are taken in
  their order. The vector's move assignment (with \<^verbatim>\<open>std::allocator\<close>) takes over the
  source's buffer and leaves the source empty.
\<close>

type_synonym objects = "nat \<Rightarrow> MemoryPool"

definition move_assign :: "nat \<Rightarrow> nat \<Rightarrow> world \<times> objects \<Rightarrow> world \<times> objects" where
  "move_assign this other s =
     (case s of (w, objs) \<Rightarrow>
        if this \<noteq> other then
          let w1 = w\<lparr>freed := freed w @ allocatedChunks (objs this)\<rparr>;
              o1 = objs(this := (objs this)\<lparr>allocatedChunks := allocatedChunks (objs other)\<rparr>);
              o2 = o1(other := (o1 other)\<lparr>allocatedChunks := []\<rparr>);
              o3 = o2(this := (o2 this)\<lparr>freeList := freeList (o2 other)\<rparr>);
              o4 = o3(this := (o3 this)\<lparr>blockSize := blockSize (o3 other)\<rparr>);
              o5 = o4(this := (o4 this)\<lparr>blockCount := blockCount (o4 other)\<rparr>);
              o6 = o5(other := (o5 other)\<lparr>freeList := 0\<rparr>);
              o7 = o6(other := (o6 other)\<lparr>blockSize := 0\<rparr>);
              o8 = o7(other := (o7 other)\<lparr>blockCount := 0\<rparr>)
          in (w1, o8)
        else (w, objs))"

section \<open>Callers\<close>

text \<open>\<open>n\<close> calls of \<^verbatim>\<open>allocate()\<close> in a row; the handles are listed in the order of the
  calls, and an exception ends the run.\<close>

fun allocate_n :: "malloc_oracle \<Rightarrow> nat \<Rightarrow> state \<Rightarrow> ((error + addr list) \<times> state) option" where
  "allocate_n M 0 s = Some (Inr [], s)"
| "allocate_n M (Suc n) s =
     (case allocate M s of
        None \<Rightarrow> None
      | Some (Inl e, s') \<Rightarrow> Some (Inl e, s')
      | Some (Inr b, s') \<Rightarrow>
          (case allocate_n M n s' of
             None \<Rightarrow> None
           | Some (Inl e, s'') \<Rightarrow> Some (Inl e, s'')
           | Some (Inr bs, s'') \<Rightarrow> Some (Inr (b # bs), s'')))"

text \<open>
  What a caller does with a pool: it calls \<^verbatim>\<open>allocate()\<close>, it calls \<^verbatim>\<open>deallocate(b)\<close>, and it
  writes to the blocks it holds, here one byte at a time: \<open>Store a v\<close> puts the byte \<open>v\<close>
  at the address \<open>a\<close>.
\<close>

datatype call = Allocate | Deallocate addr | Store addr byte

definition caller_store :: "addr \<Rightarrow> byte \<Rightarrow> state \<Rightarrow> state" where
  "caller_store a v s = (case s of (w, p) \<Rightarrow> (w\<lparr>mem := (mem w)(a := v)\<rparr>, p))"

text \<open>
  A run of calls by one caller, who keeps the blocks it was given in \<open>held\<close> and goes on
  after a \<^verbatim>\<open>bad_alloc\<close> it has caught. The run has no end state (\<open>None\<close>) when an
  \<^verbatim>\<open>allocate()\<close> does not return, and when the caller passes \<^verbatim>\<open>deallocate\<close> a block it
  does not hold or writes outside the blocks it holds, which the pool does not detect
  and the caller must not do.
\<close>

fun run :: "malloc_oracle \<Rightarrow> call list \<Rightarrow> state \<Rightarrow> addr list \<Rightarrow> (state \<times> addr list) option" where
  "run M [] s held = Some (s, held)"
| "run M (Allocate # cs) s held =
     (case allocate M s of
        None \<Rightarrow> None
      | Some (Inl e, s') \<Rightarrow> run M cs s' held
      | Some (Inr b, s') \<Rightarrow> run M cs s' (b # held))"
| "run M (Deallocate b # cs) s held =
     (if b \<in> set held then run M cs (deallocate b s) (remove1 b held) else None)"
| "run M (Store a v # cs) s held =
     (if \<exists>b\<in>set held. a - b < blockSize (snd s)
      then run M cs (caller_store a v s) held else None)"

section \<open>Threads\<close>

text \<open>
  With several threads a call of \<^verbatim>\<open>allocate\<close> or \<^verbatim>\<open>deallocate\<close> is not one step: between
  the load of the head, the access to the node and the compare-and-swap, other threads
  run. A thread is at one of these points of the source, with its local variables:

  \<^item> \<open>Ready\<close>: between two calls;
  \<^item> \<open>Alloc_read head\<close>: in \<^verbatim>\<open>allocate\<close> at the test \<^verbatim>\<open>while (head)\<close>, with the head that
    \<^verbatim>\<open>freeList.load\<close> returned or that a failed compare-and-swap left in \<^verbatim>\<open>head\<close>;
  \<^item> \<open>Alloc_cas head next\<close>: the argument \<^verbatim>\<open>head->next\<close> has been read, the
    \<^verbatim>\<open>compare_exchange_weak(head, head->next)\<close> is next;
  \<^item> \<open>Dealloc_store node head\<close>: in \<^verbatim>\<open>deallocate\<close> before \<^verbatim>\<open>node->next = head\<close>;
  \<^item> \<open>Dealloc_cas node head\<close>: before \<^verbatim>\<open>compare_exchange_weak(head, node)\<close>.

  A thread also has the calls it is still to make and the blocks it holds.
\<close>

datatype point =
    Ready
  | Alloc_read addr
  | Alloc_cas addr addr
  | Dealloc_store addr addr
  | Dealloc_cas addr addr

record thread =
  pc :: point
  todo :: "call list"
  holds :: "addr list"

text \<open>
  One step of a thread runs up to and including its next access to the head or to a
  node. The accesses of all threads happen one after the other. A compare-and-swap fails
  only when the head is not the expected one, and then leaves the head it found in
  \<^verbatim>\<open>head\<close>. A thread that is \<open>Ready\<close> begins its next call with the load of the head, or
  writes a byte; it gives back only a block it holds and writes only to blocks it holds,
  and stays where it is otherwise. A thread catches a
  \<^verbatim>\<open>bad_alloc\<close> and goes on with its next call. A growth cycle and the load of the head by
  the \<^verbatim>\<open>allocate()\<close> that follows it are one step here: the threads interleave in fewer
  ways than in the code, and each of these ways is one of the code.
\<close>

definition thread_step :: "malloc_oracle \<Rightarrow> state \<Rightarrow> thread \<Rightarrow> state \<times> thread" where
  "thread_step M s t =
     (case s of (w, p) \<Rightarrow>
        (case pc t of
           Ready \<Rightarrow>
             (case todo t of
                [] \<Rightarrow> (s, t)
              | Allocate # cs \<Rightarrow> (s, t\<lparr>pc := Alloc_read (freeList p), todo := cs\<rparr>)
              | Deallocate b # cs \<Rightarrow>
                  if b \<in> set (holds t)
                  then (s, t\<lparr>pc := Dealloc_store b (freeList p), todo := cs,
                              holds := remove1 b (holds t)\<rparr>)
                  else (s, t)
              | Store a v # cs \<Rightarrow>
                  if \<exists>b\<in>set (holds t). a - b < blockSize p
                  then (caller_store a v s, t\<lparr>todo := cs\<rparr>)
                  else (s, t))
         | Alloc_read head \<Rightarrow>
             if head \<noteq> 0 then (s, t\<lparr>pc := Alloc_cas head (load_next (mem w) head)\<rparr>)
             else (case allocateChunk M s of
                     (Inl e, s') \<Rightarrow> (s', t\<lparr>pc := Ready\<rparr>)
                   | (Inr u, s') \<Rightarrow> (s', t\<lparr>pc := Alloc_read (freeList (snd s'))\<rparr>))
         | Alloc_cas head next \<Rightarrow>
             if freeList p = head
             then ((w, p\<lparr>freeList := next\<rparr>), t\<lparr>pc := Ready, holds := head # holds t\<rparr>)
             else (s, t\<lparr>pc := Alloc_read (freeList p)\<rparr>)
         | Dealloc_store node head \<Rightarrow>
             ((w\<lparr>mem := store_next (mem w) node head\<rparr>, p), t\<lparr>pc := Dealloc_cas node head\<rparr>)
         | Dealloc_cas node head \<Rightarrow>
             if freeList p = head then ((w, p\<lparr>freeList := node\<rparr>), t\<lparr>pc := Ready\<rparr>)
             else (s, t\<lparr>pc := Dealloc_store node (freeList p)\<rparr>)))"

text \<open>A schedule names, step by step, the thread that runs; a number that names no thread
  is passed over.\<close>

fun interleave :: "malloc_oracle \<Rightarrow> nat list \<Rightarrow> state \<times> thread list \<Rightarrow> state \<times> thread list" where
  "interleave M [] c = c"
| "interleave M (i # sched) (s, ts) =
     (if i < length ts
      then (case thread_step M s (ts ! i) of (s', t') \<Rightarrow> interleave M sched (s', ts[i := t']))
      else interleave M sched (s, ts))"

section \<open>The free list and the chunks\<close>

text \<open>\<open>flist m h xs\<close>: following \<^verbatim>\<open>next\<close> from the head \<open>h\<close> visits exactly the nodes \<open>xs\<close>
  and then reaches the null pointer.\<close>

primrec flist :: "memory \<Rightarrow> addr \<Rightarrow> addr list \<Rightarrow> bool" where
  "flist m h [] = (h = 0)"
| "flist m h (x # xs) = (h = x \<and> x \<noteq> 0 \<and> flist m (load_next m x) xs)"

text \<open>An address lies in the chunk at \<open>c\<close> when its offset from \<open>c\<close> is below the
  chunk's size, \<^verbatim>\<open>blockSize * blockCount\<close> as \<^verbatim>\<open>allocateChunk\<close> computes it.\<close>

definition in_chunk :: "MemoryPool \<Rightarrow> addr \<Rightarrow> addr \<Rightarrow> bool" where
  "in_chunk p c a = (a - c < blockSize p * blockCount p)"


text \<open>Two links are apart when the eight bytes of the one and the eight bytes of the other
  have no byte in common, also around the end of the address space.\<close>

definition apart :: "addr \<Rightarrow> addr \<Rightarrow> bool" where
  "apart a b = (8 \<le> unat (a - b) \<and> 8 \<le> unat (b - a))"

text \<open>The blocks \<^verbatim>\<open>allocateChunk\<close> carves from the chunk at \<open>c\<close>, in the order of the loop, and
  the blocks of all chunks of a pool.\<close>

definition blocks_of :: "size_t \<Rightarrow> size_t \<Rightarrow> addr \<Rightarrow> addr list" where
  "blocks_of bs bc c = map (\<lambda>j. c + of_nat j * bs) [0..<unat bc]"

definition all_blocks :: "MemoryPool \<Rightarrow> addr list" where
  "all_blocks p = concat (map (blocks_of (blockSize p) (blockCount p)) (allocatedChunks p))"

section \<open>The contract of malloc and the invariant of the pool\<close>

text \<open>
  What is assumed of \<^verbatim>\<open>malloc\<close>, for requests of \<open>n\<close> bytes: the region of a successful call
  lies in the address space, and the regions of two successful calls do not overlap (the
  pool frees nothing while it lives).
\<close>

definition malloc_contract :: "malloc_oracle \<Rightarrow> size_t \<Rightarrow> bool" where
  "malloc_contract M n \<longleftrightarrow>
     (\<forall>k. M k n \<noteq> 0 \<longrightarrow> unat (M k n) + unat n \<le> 2 ^ 64)
   \<and> (\<forall>j k. j < k \<and> M j n \<noteq> 0 \<and> M k n \<noteq> 0 \<longrightarrow>
          unat (M j n) + unat n \<le> unat (M k n) \<or> unat (M k n) + unat n \<le> unat (M j n))"

text \<open>The chunks of a pool are in order when a block can hold a link, a chunk has at least
  one block and a size that does not overflow, and the chunks are distinct regions of
  the address space that do not overlap.\<close>

definition good_chunks :: "MemoryPool \<Rightarrow> bool" where
  "good_chunks p \<longleftrightarrow>
     sizeof_Node \<le> blockSize p \<and> blockCount p \<noteq> 0
   \<and> unat (blockSize p) * unat (blockCount p) < 2 ^ 64
   \<and> distinct (allocatedChunks p)
   \<and> (\<forall>c\<in>set (allocatedChunks p).
         c \<noteq> 0 \<and> unat c + unat (blockSize p) * unat (blockCount p) \<le> 2 ^ 64)
   \<and> (\<forall>c\<in>set (allocatedChunks p). \<forall>c'\<in>set (allocatedChunks p). c \<noteq> c' \<longrightarrow>
         unat c + unat (blockSize p) * unat (blockCount p) \<le> unat c'
       \<or> unat c' + unat (blockSize p) * unat (blockCount p) \<le> unat c)"

text \<open>
  The invariant, for the list \<open>free\<close> of free blocks and the list \<open>held\<close> of blocks that
  callers hold: the chunks are in order and were returned by earlier \<^verbatim>\<open>malloc\<close> calls, the
  free list visits exactly \<open>free\<close>, and \<open>free\<close> and \<open>held\<close> together are the blocks of the
  chunks, each once.
\<close>

definition pool_inv :: "malloc_oracle \<Rightarrow> state \<Rightarrow> addr list \<Rightarrow> addr list \<Rightarrow> bool" where
  "pool_inv M s free held \<longleftrightarrow>
     good_chunks (snd s)
   \<and> (\<forall>c\<in>set (allocatedChunks (snd s)).
         \<exists>j<malloc_calls (fst s). M j (blockSize (snd s) * blockCount (snd s)) = c)
   \<and> flist (mem (fst s)) (freeList (snd s)) free
   \<and> mset free + mset held = mset (all_blocks (snd s))"

section \<open>Machines and pools to run\<close>

text \<open>Memory that is all zero, no \<^verbatim>\<open>malloc\<close> call made yet.\<close>

definition world0 :: world where
  "world0 = \<lparr>mem = (\<lambda>a. 0), malloc_calls = 0, freed = []\<rparr>"

text \<open>A heap that serves three requests of at most 256 bytes, at 0x1000, 0x1100 and
  0x1200, and fails every other request.\<close>

definition small_heap :: malloc_oracle where
  "small_heap k n = (if k < 3 \<and> n \<le> 0x100 then 0x1000 + 0x100 * of_nat k else 0)"






text \<open>Pools that have no chunk yet: one whose chunk of 512 bytes \<open>small_heap\<close> refuses, one
  of two blocks of 16 bytes, one of two blocks of 4 bytes, and one with no block per
  chunk.\<close>

definition big_pool :: MemoryPool where
  "big_pool = \<lparr>freeList = 0, allocatedChunks = [], blockSize = 64, blockCount = 8\<rparr>"

definition pair_pool :: MemoryPool where
  "pair_pool = \<lparr>freeList = 0, allocatedChunks = [], blockSize = 16, blockCount = 2\<rparr>"

definition tiny_pool :: MemoryPool where
  "tiny_pool = \<lparr>freeList = 0, allocatedChunks = [], blockSize = 4, blockCount = 2\<rparr>"

definition blockless_pool :: MemoryPool where
  "blockless_pool = \<lparr>freeList = 0, allocatedChunks = [], blockSize = 16, blockCount = 0\<rparr>"

text \<open>Two pool objects, at the addresses 0 and 1, each with one chunk.\<close>

definition two_pools :: objects where
  "two_pools i =
     (if i = 0 then \<lparr>freeList = 0x2010, allocatedChunks = [0x2000], blockSize = 16, blockCount = 2\<rparr>
      else \<lparr>freeList = 0x1010, allocatedChunks = [0x1000], blockSize = 32, blockCount = 4\<rparr>)"



text \<open>
  Two threads of three calls each on a pool whose first chunk is at 0x1000 and has two
  blocks of 16 bytes, and a schedule for them: thread 0 loads the head and reads its
  link, thread 1 makes its three calls, then thread 0 goes on to the end.
\<close>

definition thread_A :: thread where
  "thread_A = \<lparr>pc = Ready, todo = [Allocate, Deallocate 0x1010, Allocate], holds = []\<rparr>"

definition thread_B :: thread where
  "thread_B = \<lparr>pc = Ready, todo = [Allocate, Allocate, Deallocate 0x1010], holds = []\<rparr>"

definition aba_schedule :: "nat list" where
  "aba_schedule = [0, 0, 1, 1, 1, 1, 1, 1, 1, 1, 1, 0, 0, 0, 0, 0, 0, 0]"

section \<open>Memory\<close>

declare populate.simps [simp del]

lemma off_lt8: "k < 8 \<Longrightarrow> (of_nat k :: addr) < 8 \<and> unat (of_nat k :: addr) = k"
  by (simp add: word_less_nat_alt unat_of_nat)

lemma load_store_same: "load_next (store_next m p v) p = v"
proof (rule bit_eqI)
  fix n
  assume "possible_bit TYPE(addr) n"
  then have n: "n < 64" by (simp add: possible_bit_def)
  then have d: "n div 8 < 8" by simp
  have "bit (load_next (store_next m p v) p) n \<longleftrightarrow>
        bit (store_next m p v (p + of_nat (n div 8))) (n mod 8)"
    using n d bit_horner_sum_uint_exp_iff
      [where ?'a = 8, of "map (\<lambda>k. store_next m p v (p + of_nat k)) [0..<8]" n]
    by (simp add: load_next_def word_rcat_def bit_word_of_int_iff bit_uint_iff del: upt_Suc)
  also have "\<dots> \<longleftrightarrow> bit (ucast (drop_bit (8 * (n div 8)) v) :: byte) (n mod 8)"
    using off_lt8 [OF d] by (simp add: store_next_def)
  also have "\<dots> \<longleftrightarrow> bit v n"
    by (simp add: bit_ucast_iff bit_drop_bit_eq)
  finally show "bit (load_next (store_next m p v) p) n \<longleftrightarrow> bit v n" .
qed

lemma load_next_cong:
  "(\<And>k. k < 8 \<Longrightarrow> m (q + of_nat k) = m' (q + of_nat k)) \<Longrightarrow> load_next m q = load_next m' q"
  unfolding load_next_def
  by (rule arg_cong [where f = word_rcat], rule arg_cong [where f = rev]) simp

lemma load_store_other:
  assumes "\<And>k. k < 8 \<Longrightarrow> \<not> (q + of_nat k) - p < 8"
  shows "load_next (store_next m p v) q = load_next m q"
  by (rule load_next_cong) (simp add: store_next_def assms)

section \<open>The loop of allocateChunk\<close>

lemma deallocate_fields [simp]:
  "blockSize (snd (deallocate a s)) = blockSize (snd s)"
  "blockCount (snd (deallocate a s)) = blockCount (snd s)"
  "allocatedChunks (snd (deallocate a s)) = allocatedChunks (snd s)"
  "freeList (snd (deallocate a s)) = a"
  "malloc_calls (fst (deallocate a s)) = malloc_calls (fst s)"
  "freed (fst (deallocate a s)) = freed (fst s)"
  "mem (fst (deallocate a s)) = store_next (mem (fst s)) a (freeList (snd s))"
  by (cases s; simp add: deallocate_def)+

text \<open>The loop is a left fold of \<^verbatim>\<open>deallocate\<close> over the block addresses, lowest first.\<close>

lemma populate_fold:
  "populate c i s =
     fold (\<lambda>j. deallocate (c + of_nat j * blockSize (snd s))) [i..<unat (blockCount (snd s))] s"
proof (induction c i s rule: populate.induct)
  case (1 block i s)
  show ?case
  proof (cases "i < unat (blockCount (snd s))")
    case True
    then show ?thesis
      using "1.IH" [OF True]
      by (subst populate.simps) (simp add: upt_conv_Cons)
  next
    case False
    then show ?thesis
      by (subst populate.simps) simp
  qed
qed

lemma fold_deallocate_fields:
  "blockSize (snd (fold (\<lambda>j. deallocate (f j)) js s)) = blockSize (snd s)
   \<and> blockCount (snd (fold (\<lambda>j. deallocate (f j)) js s)) = blockCount (snd s)
   \<and> allocatedChunks (snd (fold (\<lambda>j. deallocate (f j)) js s)) = allocatedChunks (snd s)
   \<and> malloc_calls (fst (fold (\<lambda>j. deallocate (f j)) js s)) = malloc_calls (fst s)
   \<and> freed (fst (fold (\<lambda>j. deallocate (f j)) js s)) = freed (fst s)
   \<and> freeList (snd (fold (\<lambda>j. deallocate (f j)) js s)) =
       (if js = [] then freeList (snd s) else f (last js))"
  by (induction js arbitrary: s) auto

lemma populate_fields:
  "blockSize (snd (populate c i s)) = blockSize (snd s)"
  "blockCount (snd (populate c i s)) = blockCount (snd s)"
  "allocatedChunks (snd (populate c i s)) = allocatedChunks (snd s)"
  "malloc_calls (fst (populate c i s)) = malloc_calls (fst s)"
  "freed (fst (populate c i s)) = freed (fst s)"
  by (simp_all add: populate_fold fold_deallocate_fields)

lemma populate_freeList:
  "freeList (snd (populate c i s)) =
     (if i < unat (blockCount (snd s))
      then c + of_nat (unat (blockCount (snd s)) - 1) * blockSize (snd s)
      else freeList (snd s))"
  by (simp add: populate_fold fold_deallocate_fields)

text \<open>Where the chunk fits into the address space and its size is computed without
  overflow, the address of block \<open>j\<close> is the sum it looks like.\<close>

lemma unat_block_addr:
  assumes fit: "unat c + unat bs * n \<le> 2 ^ 64" and j: "j < n"
  shows "unat (c + of_nat j * bs :: addr) = unat c + j * unat bs"
proof -
  have "j * unat bs + unat bs \<le> n * unat bs"
    using j by (metis Suc_leI mult_Suc mult_le_mono1 add.commute)
  moreover have "unat c < 2 ^ 64" using unsigned_less [of c] by simp
  ultimately have lt: "unat bs = 0 \<or> unat c + j * unat bs < 2 ^ 64"
    using fit by (cases "unat bs = 0") (auto simp: mult.commute)
  have small: "unat c + j * unat bs < 2 ^ 64"
    using lt \<open>unat c < 2 ^ 64\<close> by auto
  have "unat (c + of_nat j * bs) = (unat c + (j mod 2 ^ 64 * unat bs) mod 2 ^ 64) mod 2 ^ 64"
    by (simp add: unat_word_ariths unat_of_nat)
  also have "\<dots> = (unat c + j * unat bs) mod 2 ^ 64"
    by (metis mod_add_right_eq mod_mult_left_eq)
  also have "\<dots> = unat c + j * unat bs"
    using small by simp
  finally show ?thesis .
qed

text \<open>After a growth cycle of a pool with at least one block per chunk the head is the
  last block of the new chunk, which is not null when the chunk lies in the address
  space.\<close>

lemma last_block_nonnull:
  assumes "c \<noteq> 0" and "bc \<noteq> 0"
    and "unat bs * unat bc < 2 ^ 64"
    and "unat c + unat (bs * bc) \<le> 2 ^ 64"
  shows "c + of_nat (unat bc - 1) * bs \<noteq> (0 :: addr)"
proof -
  have n: "unat bc - 1 < unat bc"
    using assms(2) by (simp add: unat_gt_0)
  have "unat (bs * bc) = unat bs * unat bc"
    using assms(3) by (simp add: unat_word_ariths)
  then have "unat (c + of_nat (unat bc - 1) * bs) = unat c + (unat bc - 1) * unat bs"
    using assms(4) n by (intro unat_block_addr) simp_all
  moreover have "0 < unat c"
    using assms(1) by (simp add: unat_gt_0)
  ultimately have "0 < unat (c + of_nat (unat bc - 1) * bs)" by simp
  then show ?thesis by (simp add: unat_gt_0)
qed

lemma allocateChunk_null:
  "M (malloc_calls w) (blockSize p * blockCount p) = 0 \<Longrightarrow>
   allocateChunk M (w, p) = (Inl bad_alloc, (w\<lparr>malloc_calls := Suc (malloc_calls w)\<rparr>, p))"
  by (simp add: allocateChunk_def)

lemma allocateChunk_nonnull:
  "M (malloc_calls w) (blockSize p * blockCount p) \<noteq> 0 \<Longrightarrow>
   allocateChunk M (w, p) =
     (Inr (), populate (M (malloc_calls w) (blockSize p * blockCount p)) 0
                (w\<lparr>malloc_calls := Suc (malloc_calls w)\<rparr>,
                 p\<lparr>allocatedChunks :=
                     allocatedChunks p @ [M (malloc_calls w) (blockSize p * blockCount p)]\<rparr>))"
  by (simp add: allocateChunk_def Let_def)

section \<open>allocate, seen from its callers\<close>

lemma allocate_nonempty:
  "freeList (snd s) \<noteq> 0 \<Longrightarrow>
   allocate M s = Some (Inr (freeList (snd s)),
     (fst s, (snd s)\<lparr>freeList := load_next (mem (fst s)) (freeList (snd s))\<rparr>))"
  by (subst allocate.simps) simp

lemma allocate_empty:
  "freeList (snd s) = 0 \<Longrightarrow>
   allocate M s = (case allocateChunk M s of
                     (Inl e, s') \<Rightarrow> Some (Inl e, s')
                   | (Inr u, s') \<Rightarrow> allocate M s')"
  by (subst allocate.simps) simp

text \<open>A handle that \<^verbatim>\<open>allocate\<close> returns is never the null pointer.\<close>

lemma allocate_nonnull:
  assumes "allocate M s = Some (Inr b, s')"
  shows "b \<noteq> 0"
proof -
  have "allocate M s = Some r \<Longrightarrow> \<forall>b s'. r = (Inr b, s') \<longrightarrow> b \<noteq> 0" for r
  proof (induction rule: allocate.raw_induct [rotated, consumes 1])
    case (1 allocate' M s r)
    then show ?case
      by (auto split: if_splits prod.splits sum.splits)
  qed
  with assms show ?thesis by blast
qed

text \<open>A call that returns within a depth bound returns the same without one.\<close>

lemma allocate_within_allocate:
  "allocate_within d M s = Some r \<Longrightarrow> allocate M s = Some r"
proof (induction d arbitrary: s)
  case 0
  then show ?case by simp
next
  case (Suc d)
  show ?case
  proof (cases "freeList (snd s) = 0")
    case False
    with Suc.prems show ?thesis by (simp add: allocate_nonempty)
  next
    case True
    with Suc show ?thesis
      by (auto simp: allocate_empty split: prod.splits sum.splits)
  qed
qed


section \<open>Links that do not overlap\<close>

lemma apart_sym: "apart a b \<Longrightarrow> apart b a"
  by (simp add: apart_def)

lemma apart_neq: "apart a b \<Longrightarrow> a \<noteq> b"
  by (auto simp: apart_def)

lemma unat_neg_diff:
  fixes a b :: addr
  assumes "a \<noteq> b"
  shows "unat (a - b) + unat (b - a) = 2 ^ 64"
proof -
  have "unat a \<noteq> unat b" using assms by (simp add: word_unat_eq_iff)
  moreover have "unat a < 2 ^ 64" "unat b < 2 ^ 64"
    using unsigned_less [of a, where ?'a = nat] unsigned_less [of b, where ?'a = nat] by simp_all
  ultimately show ?thesis
    by (simp add: unat_sub_if_size word_size)
qed

lemma load_store_apart:
  assumes "apart q p"
  shows "load_next (store_next m p v) q = load_next m q"
proof (rule load_store_other)
  fix k :: nat
  assume k: "k < 8"
  have ne: "q \<noteq> p" using assms by (rule apart_neq)
  have lo: "8 \<le> unat (q - p)" and hi: "8 \<le> unat (p - q)"
    using assms by (simp_all add: apart_def)
  have "unat (q - p) + 8 \<le> 2 ^ 64"
    using unat_neg_diff [OF ne] hi by simp
  then have "unat (q - p) + k < 2 ^ 64" using k by simp
  then have u: "unat ((q - p) + of_nat k) = unat (q - p) + k"
    using k by (simp add: unat_word_ariths unat_of_nat)
  have e: "q + of_nat k - p = (q - p) + of_nat k" by simp
  have "8 \<le> unat (q + of_nat k - p)"
    unfolding e u using lo by linarith
  then show "\<not> q + of_nat k - p < 8"
    by (simp add: word_less_nat_alt)
qed

lemma apart_nat:
  assumes "unat a + 8 \<le> unat b" and "unat b + 8 \<le> 2 ^ 64"
  shows "apart a b"
proof -
  have le: "a \<le> b" using assms(1) by (simp add: word_le_nat_alt)
  have d: "unat (b - a) = unat b - unat a"
    using le by (simp add: unat_sub)
  have ne: "a \<noteq> b" using assms(1) by auto
  have "unat (a - b) + (unat b - unat a) = 2 ^ 64"
    using unat_neg_diff [OF ne] d by simp
  then have "8 \<le> unat (a - b) \<and> 8 \<le> unat (b - a)"
    using d assms by linarith
  then show ?thesis
    by (simp add: apart_def)
qed

lemma flist_store:
  "(\<And>x. x \<in> set xs \<Longrightarrow> apart x b) \<Longrightarrow> flist (store_next m b v) h xs = flist m h xs"
  by (induction xs arbitrary: h) (simp_all add: load_store_apart)

section \<open>Where the blocks of a chunk lie\<close>

lemma block_position:
  assumes "b \<in> set (blocks_of bs bc c)"
    and "unat c + unat bs * unat bc \<le> 2 ^ 64"
  shows "\<exists>j<unat bc. b = c + of_nat j * bs \<and> unat b = unat c + j * unat bs"
  using assms unat_block_addr [of c bs "unat bc"]
  by (auto simp: blocks_of_def)

lemma block_in_chunk:
  assumes "b \<in> set (blocks_of bs bc c)"
    and "unat c + unat bs * unat bc \<le> 2 ^ 64"
  shows "unat c \<le> unat b \<and> unat b + unat bs \<le> unat c + unat bs * unat bc"
proof -
  obtain j where j: "j < unat bc" and b: "unat b = unat c + j * unat bs"
    using block_position [OF assms] by blast
  have "j * unat bs + unat bs \<le> unat bc * unat bs"
    using j by (metis Suc_leI mult_Suc mult_le_mono1 add.commute)
  then show ?thesis using b by (simp add: mult.commute)
qed

lemma blocks_apart_within:
  assumes a: "a \<in> set (blocks_of bs bc c)" and b: "b \<in> set (blocks_of bs bc c)"
    and ne: "a \<noteq> b" and bs: "8 \<le> unat bs"
    and fit: "unat c + unat bs * unat bc \<le> 2 ^ 64"
  shows "apart a b"
proof -
  obtain i where i: "i < unat bc" "a = c + of_nat i * bs" "unat a = unat c + i * unat bs"
    using block_position [OF a fit] by blast
  obtain j where j: "j < unat bc" "b = c + of_nat j * bs" "unat b = unat c + j * unat bs"
    using block_position [OF b fit] by blast
  have top: "unat a + 8 \<le> 2 ^ 64" "unat b + 8 \<le> 2 ^ 64"
    using block_in_chunk [OF a fit] block_in_chunk [OF b fit] bs fit by linarith+
  have "i \<noteq> j" using ne i(2) j(2) by auto
  then consider "i < j" | "j < i" by linarith
  then show ?thesis
  proof cases
    case 1
    then have "i * unat bs + unat bs \<le> j * unat bs"
      by (metis Suc_leI mult_Suc mult_le_mono1 add.commute)
    then have "unat a + 8 \<le> unat b" using i(3) j(3) bs by linarith
    then show ?thesis using top(2) by (rule apart_nat)
  next
    case 2
    then have "j * unat bs + unat bs \<le> i * unat bs"
      by (metis Suc_leI mult_Suc mult_le_mono1 add.commute)
    then have "unat b + 8 \<le> unat a" using i(3) j(3) bs by linarith
    then have "apart b a" using top(1) by (rule apart_nat)
    then show ?thesis by (rule apart_sym)
  qed
qed

lemma blocks_apart_across:
  assumes a: "a \<in> set (blocks_of bs bc c)" and b: "b \<in> set (blocks_of bs bc c')"
    and bs: "8 \<le> unat bs"
    and fit: "unat c + unat bs * unat bc \<le> 2 ^ 64" "unat c' + unat bs * unat bc \<le> 2 ^ 64"
    and dis: "unat c + unat bs * unat bc \<le> unat c' \<or> unat c' + unat bs * unat bc \<le> unat c"
  shows "apart a b"
proof -
  note A = block_in_chunk [OF a fit(1)] and B = block_in_chunk [OF b fit(2)]
  have top: "unat a + 8 \<le> 2 ^ 64" "unat b + 8 \<le> 2 ^ 64"
    using A B bs fit by linarith+
  from dis show ?thesis
  proof
    assume "unat c + unat bs * unat bc \<le> unat c'"
    then have "unat a + 8 \<le> unat b" using A B bs by linarith
    then show ?thesis using top(2) by (rule apart_nat)
  next
    assume "unat c' + unat bs * unat bc \<le> unat c"
    then have "unat b + 8 \<le> unat a" using A B bs by linarith
    then have "apart b a" using top(1) by (rule apart_nat)
    then show ?thesis by (rule apart_sym)
  qed
qed

lemma distinct_blocks_of:
  assumes bs: "8 \<le> unat bs" and fit: "unat c + unat bs * unat bc \<le> 2 ^ 64"
  shows "distinct (blocks_of bs bc c)"
proof -
  have "inj_on (\<lambda>j. c + of_nat j * bs) {0..<unat bc}"
  proof (rule inj_onI)
    fix i j assume i: "i \<in> {0..<unat bc}" and j: "j \<in> {0..<unat bc}"
      and e: "c + of_nat i * bs = c + of_nat j * bs"
    have ui: "unat (c + of_nat i * bs) = unat c + i * unat bs"
      using i by (intro unat_block_addr [OF fit]) simp
    have uj: "unat (c + of_nat j * bs) = unat c + j * unat bs"
      using j by (intro unat_block_addr [OF fit]) simp
    have "unat c + i * unat bs = unat c + j * unat bs"
      using ui uj e by (simp only:)
    then show "i = j" using bs by auto
  qed
  then show ?thesis
    by (simp add: blocks_of_def distinct_map)
qed

lemma good_bs: "good_chunks p \<Longrightarrow> 8 \<le> unat (blockSize p)"
  by (simp add: good_chunks_def sizeof_Node_def word_le_nat_alt)

lemma all_blocks_mem:
  "a \<in> set (all_blocks p) \<longleftrightarrow>
   (\<exists>c\<in>set (allocatedChunks p). a \<in> set (blocks_of (blockSize p) (blockCount p) c))"
  by (auto simp: all_blocks_def)

lemma good_blocks_apart:
  assumes g: "good_chunks p" and a: "a \<in> set (all_blocks p)" and b: "b \<in> set (all_blocks p)"
    and ne: "a \<noteq> b"
  shows "apart a b"
proof -
  obtain c where c: "c \<in> set (allocatedChunks p)" "a \<in> set (blocks_of (blockSize p) (blockCount p) c)"
    using a by (auto simp: all_blocks_mem)
  obtain c' where c': "c' \<in> set (allocatedChunks p)" "b \<in> set (blocks_of (blockSize p) (blockCount p) c')"
    using b by (auto simp: all_blocks_mem)
  have fc: "unat c + unat (blockSize p) * unat (blockCount p) \<le> 2 ^ 64"
    and fc': "unat c' + unat (blockSize p) * unat (blockCount p) \<le> 2 ^ 64"
    using g c(1) c'(1) by (simp_all add: good_chunks_def)
  show ?thesis
  proof (cases "c = c'")
    case True
    then show ?thesis
      using blocks_apart_within [OF c(2) _ ne good_bs [OF g] fc] c'(2) by simp
  next
    case False
    then have "unat c + unat (blockSize p) * unat (blockCount p) \<le> unat c'
       \<or> unat c' + unat (blockSize p) * unat (blockCount p) \<le> unat c"
      using g c(1) c'(1) by (simp add: good_chunks_def)
    then show ?thesis
      using blocks_apart_across [OF c(2) c'(2) good_bs [OF g] fc fc'] by simp
  qed
qed

lemma good_blocks_nonnull:
  assumes g: "good_chunks p" and a: "a \<in> set (all_blocks p)"
  shows "a \<noteq> 0"
proof -
  obtain c where c: "c \<in> set (allocatedChunks p)" "a \<in> set (blocks_of (blockSize p) (blockCount p) c)"
    using a by (auto simp: all_blocks_mem)
  have fc: "unat c + unat (blockSize p) * unat (blockCount p) \<le> 2 ^ 64" and "c \<noteq> 0"
    using g c(1) by (simp_all add: good_chunks_def)
  then have "0 < unat c" by (simp add: unat_gt_0)
  then have "0 < unat a" using block_in_chunk [OF c(2) fc] by linarith
  then show ?thesis by (simp add: unat_gt_0)
qed

lemma hd_blocks_of: "bc \<noteq> 0 \<Longrightarrow> c \<in> set (blocks_of bs bc c)"
  by (auto simp: blocks_of_def unat_gt_0 intro!: image_eqI [where x = 0])

lemma good_blocks_distinct:
  assumes g: "good_chunks p"
  shows "distinct (all_blocks p)"
  unfolding all_blocks_def
proof (rule distinct_concat)
  let ?f = "blocks_of (blockSize p) (blockCount p)"
  have bc: "blockCount p \<noteq> 0" using g by (simp add: good_chunks_def)
  have "inj_on ?f (set (allocatedChunks p))"
  proof (rule inj_onI)
    fix c c' assume c: "c \<in> set (allocatedChunks p)" and c': "c' \<in> set (allocatedChunks p)"
      and e: "?f c = ?f c'"
    show "c = c'"
    proof (rule ccontr)
      assume ne: "c \<noteq> c'"
      have "c \<in> set (?f c)" by (rule hd_blocks_of [OF bc])
      then have cin: "c \<in> set (?f c')" by (simp only: e)
      have fc': "unat c' + unat (blockSize p) * unat (blockCount p) \<le> 2 ^ 64"
        using g c' by (simp add: good_chunks_def)
      have "unat c' \<le> unat c \<and> unat c + unat (blockSize p) \<le> unat c' + unat (blockSize p) * unat (blockCount p)"
        using block_in_chunk [OF cin fc'] .
      moreover have "unat c + unat (blockSize p) * unat (blockCount p) \<le> unat c'
         \<or> unat c' + unat (blockSize p) * unat (blockCount p) \<le> unat c"
        using g c c' ne by (simp add: good_chunks_def)
      ultimately show False using good_bs [OF g] by linarith
    qed
  qed
  then show "distinct (map ?f (allocatedChunks p))"
    using g by (simp add: distinct_map good_chunks_def)
next
  fix ys assume "ys \<in> set (map (blocks_of (blockSize p) (blockCount p)) (allocatedChunks p))"
  then show "distinct ys"
    using g distinct_blocks_of [OF good_bs [OF g]] by (auto simp: good_chunks_def)
next
  fix ys zs
  assume ys: "ys \<in> set (map (blocks_of (blockSize p) (blockCount p)) (allocatedChunks p))"
    and zs: "zs \<in> set (map (blocks_of (blockSize p) (blockCount p)) (allocatedChunks p))"
    and ne: "ys \<noteq> zs"
  obtain c where c: "c \<in> set (allocatedChunks p)" "ys = blocks_of (blockSize p) (blockCount p) c"
    using ys by auto
  obtain c' where c': "c' \<in> set (allocatedChunks p)" "zs = blocks_of (blockSize p) (blockCount p) c'"
    using zs by auto
  have cc: "c \<noteq> c'" using ne c(2) c'(2) by auto
  have fc: "unat c + unat (blockSize p) * unat (blockCount p) \<le> 2 ^ 64"
    and fc': "unat c' + unat (blockSize p) * unat (blockCount p) \<le> 2 ^ 64"
    using g c(1) c'(1) by (simp_all add: good_chunks_def)
  have dis: "unat c + unat (blockSize p) * unat (blockCount p) \<le> unat c'
       \<or> unat c' + unat (blockSize p) * unat (blockCount p) \<le> unat c"
    using g c(1) c'(1) cc by (simp add: good_chunks_def)
  show "set ys \<inter> set zs = {}"
  proof (rule ccontr)
    assume "set ys \<inter> set zs \<noteq> {}"
    then obtain a where a: "a \<in> set ys" "a \<in> set zs" by blast
    have "apart a a"
      using blocks_apart_across [OF _ _ good_bs [OF g] fc fc' dis] a c(2) c'(2) by simp
    then show False using apart_neq by blast
  qed
qed

lemma caller_store_fields [simp]:
  "snd (caller_store a v s) = snd s"
  "malloc_calls (fst (caller_store a v s)) = malloc_calls (fst s)"
  "freed (fst (caller_store a v s)) = freed (fst s)"
  "mem (fst (caller_store a v s)) = (mem (fst s))(a := v)"
  by (cases s; simp add: caller_store_def)+

text \<open>Two blocks of a chunk, and two blocks of two chunks, have no byte in common.\<close>

lemma blocks_disjoint_within:
  assumes a: "a \<in> set (blocks_of bs bc c)" and b: "b \<in> set (blocks_of bs bc c)"
    and ne: "a \<noteq> b"
    and fit: "unat c + unat bs * unat bc \<le> 2 ^ 64"
  shows "unat a + unat bs \<le> unat b \<or> unat b + unat bs \<le> unat a"
proof -
  obtain i where i: "i < unat bc" "a = c + of_nat i * bs" "unat a = unat c + i * unat bs"
    using block_position [OF a fit] by blast
  obtain j where j: "j < unat bc" "b = c + of_nat j * bs" "unat b = unat c + j * unat bs"
    using block_position [OF b fit] by blast
  have "i \<noteq> j" using ne i(2) j(2) by auto
  then consider "i < j" | "j < i" by linarith
  then show ?thesis
  proof cases
    case 1
    then have "i * unat bs + unat bs \<le> j * unat bs"
      by (metis Suc_leI mult_Suc mult_le_mono1 add.commute)
    then show ?thesis using i(3) j(3) by linarith
  next
    case 2
    then have "j * unat bs + unat bs \<le> i * unat bs"
      by (metis Suc_leI mult_Suc mult_le_mono1 add.commute)
    then show ?thesis using i(3) j(3) by linarith
  qed
qed

lemma good_blocks_disjoint:
  assumes g: "good_chunks p" and a: "a \<in> set (all_blocks p)" and b: "b \<in> set (all_blocks p)"
    and ne: "a \<noteq> b"
  shows "unat a + unat (blockSize p) \<le> unat b \<or> unat b + unat (blockSize p) \<le> unat a"
proof -
  obtain c where c: "c \<in> set (allocatedChunks p)" "a \<in> set (blocks_of (blockSize p) (blockCount p) c)"
    using a by (auto simp: all_blocks_mem)
  obtain c' where c': "c' \<in> set (allocatedChunks p)" "b \<in> set (blocks_of (blockSize p) (blockCount p) c')"
    using b by (auto simp: all_blocks_mem)
  have fc: "unat c + unat (blockSize p) * unat (blockCount p) \<le> 2 ^ 64"
    and fc': "unat c' + unat (blockSize p) * unat (blockCount p) \<le> 2 ^ 64"
    using g c(1) c'(1) by (simp_all add: good_chunks_def)
  show ?thesis
  proof (cases "c = c'")
    case True
    then show ?thesis
      using blocks_disjoint_within [OF c(2) _ ne fc] c'(2) by simp
  next
    case False
    then have "unat c + unat (blockSize p) * unat (blockCount p) \<le> unat c'
       \<or> unat c' + unat (blockSize p) * unat (blockCount p) \<le> unat c"
      using g c(1) c'(1) by (simp add: good_chunks_def)
    then show ?thesis
      using block_in_chunk [OF c(2) fc] block_in_chunk [OF c'(2) fc'] by linarith
  qed
qed

lemma good_block_top:
  assumes g: "good_chunks p" and a: "a \<in> set (all_blocks p)"
  shows "unat a + unat (blockSize p) \<le> 2 ^ 64"
proof -
  obtain c where c: "c \<in> set (allocatedChunks p)" "a \<in> set (blocks_of (blockSize p) (blockCount p) c)"
    using a by (auto simp: all_blocks_mem)
  have fc: "unat c + unat (blockSize p) * unat (blockCount p) \<le> 2 ^ 64"
    using g c(1) by (simp add: good_chunks_def)
  show ?thesis using block_in_chunk [OF c(2) fc] fc by linarith
qed

text \<open>A byte written inside a block leaves the links of the other blocks as they
  are.\<close>

lemma store_in_block_keeps_link:
  assumes g: "good_chunks p" and x: "x \<in> set (all_blocks p)" and b: "b \<in> set (all_blocks p)"
    and ne: "x \<noteq> b" and a: "a - b < blockSize p"
  shows "load_next (m(a := v)) x = load_next m x"
proof (rule load_next_cong)
  fix k :: nat
  assume k: "k < 8"
  have bs: "8 \<le> unat (blockSize p)" using g by (rule good_bs)
  have tx: "unat x + unat (blockSize p) \<le> 2 ^ 64" using g x by (rule good_block_top)
  have tb: "unat b + unat (blockSize p) \<le> 2 ^ 64" using g b by (rule good_block_top)
  have off: "unat (a - b) < unat (blockSize p)"
    using a by (simp add: word_less_nat_alt)
  have "unat b + unat (a - b) < 2 ^ LENGTH(64)"
    using tb off by simp
  then have "unat (b + (a - b)) = unat b + unat (a - b)"
    by (simp only: unat_add_lem)
  then have ua: "unat a = unat b + unat (a - b)" by simp
  have "unat x + k < 2 ^ 64" using tx bs k by linarith
  then have ux: "unat (x + of_nat k) = unat x + k"
    using k by (simp add: unat_word_ariths unat_of_nat)
  have "unat x + unat (blockSize p) \<le> unat b \<or> unat b + unat (blockSize p) \<le> unat x"
    using g x b ne by (rule good_blocks_disjoint)
  then have "unat (x + of_nat k) \<noteq> unat a"
    using ua ux off bs k by linarith
  then have "x + of_nat k \<noteq> a" by auto
  then show "(m(a := v)) (x + of_nat k) = m (x + of_nat k)" by simp
qed

lemma flist_cong:
  "(\<And>x. x \<in> set xs \<Longrightarrow> load_next m' x = load_next m x) \<Longrightarrow> flist m' h xs = flist m h xs"
  by (induction xs arbitrary: h) simp_all

section \<open>The invariant is kept\<close>

lemma good_chunks_cong:
  "blockSize q = blockSize p \<Longrightarrow> blockCount q = blockCount p \<Longrightarrow>
   allocatedChunks q = allocatedChunks p \<Longrightarrow> good_chunks q = good_chunks p"
  by (simp add: good_chunks_def)

lemma all_blocks_cong:
  "blockSize q = blockSize p \<Longrightarrow> blockCount q = blockCount p \<Longrightarrow>
   allocatedChunks q = allocatedChunks p \<Longrightarrow> all_blocks q = all_blocks p"
  by (simp add: all_blocks_def)

lemma inv_sets:
  assumes "pool_inv M s free held"
  shows "set free \<union> set held = set (all_blocks (snd s))"
    and "distinct (free @ held)"
proof -
  have m: "mset (free @ held) = mset (all_blocks (snd s))"
    using assms by (simp add: pool_inv_def)
  show "set free \<union> set held = set (all_blocks (snd s))"
    using mset_eq_setD [OF m] by simp
  have "distinct (all_blocks (snd s))"
    using assms by (simp add: pool_inv_def good_blocks_distinct)
  then show "distinct (free @ held)"
    using mset_eq_imp_distinct_iff [OF m] by simp
qed

text \<open>Pushing a block the caller holds.\<close>

lemma deallocate_inv:
  assumes inv: "pool_inv M s free held" and b: "b \<in> set held"
  shows "pool_inv M (deallocate b s) (b # free) (remove1 b held)"
proof -
  have g: "good_chunks (snd s)" using inv by (simp add: pool_inv_def)
  have ball: "b \<in> set (all_blocks (snd s))" using inv_sets(1) [OF inv] b by blast
  have "b \<noteq> 0" using good_blocks_nonnull [OF g ball] .
  have "flist (store_next (mem (fst s)) b (freeList (snd s))) (freeList (snd s)) free"
  proof -
    have "apart x b" if "x \<in> set free" for x
    proof -
      have "x \<noteq> b" using inv_sets(2) [OF inv] b that by auto
      moreover have "x \<in> set (all_blocks (snd s))" using inv_sets(1) [OF inv] that by blast
      ultimately show ?thesis using good_blocks_apart [OF g _ ball] by blast
    qed
    then show ?thesis
      using inv by (simp add: flist_store pool_inv_def)
  qed
  then have fl: "flist (mem (fst (deallocate b s))) (freeList (snd (deallocate b s))) (b # free)"
    using \<open>b \<noteq> 0\<close> by (simp add: load_store_same)
  have gc: "good_chunks (snd (deallocate b s))"
    using g by (simp add: good_chunks_cong [of "snd (deallocate b s)" "snd s"])
  have ab: "all_blocks (snd (deallocate b s)) = all_blocks (snd s)"
    by (rule all_blocks_cong) simp_all
  have "mset (b # free) + mset (remove1 b held) = mset free + mset held"
    using b by simp
  moreover have "mset free + mset held = mset (all_blocks (snd s))"
    using inv by (simp add: pool_inv_def)
  ultimately have ms: "mset (b # free) + mset (remove1 b held) = mset (all_blocks (snd (deallocate b s)))"
    using ab by (simp only:)
  have orc: "\<forall>c\<in>set (allocatedChunks (snd (deallocate b s))).
         \<exists>j<malloc_calls (fst (deallocate b s)).
           M j (blockSize (snd (deallocate b s)) * blockCount (snd (deallocate b s))) = c"
    using inv by (simp add: pool_inv_def)
  show ?thesis
    unfolding pool_inv_def using gc orc fl ms by blast
qed

text \<open>Popping the head of a free list that is not empty.\<close>

lemma allocate_pop:
  assumes inv: "pool_inv M s (x # xs) held"
  shows "allocate M s = Some (Inr x, (fst s, (snd s)\<lparr>freeList := load_next (mem (fst s)) x\<rparr>))"
    and "pool_inv M (fst s, (snd s)\<lparr>freeList := load_next (mem (fst s)) x\<rparr>) xs (x # held)"
proof -
  have h: "freeList (snd s) = x" "x \<noteq> 0" "flist (mem (fst s)) (load_next (mem (fst s)) x) xs"
    using inv by (simp_all add: pool_inv_def)
  show "allocate M s = Some (Inr x, (fst s, (snd s)\<lparr>freeList := load_next (mem (fst s)) x\<rparr>))"
    using h by (simp add: allocate_nonempty)
  let ?p' = "(snd s)\<lparr>freeList := load_next (mem (fst s)) x\<rparr>"
  have "good_chunks ?p' = good_chunks (snd s)" by (rule good_chunks_cong) simp_all
  moreover have "all_blocks ?p' = all_blocks (snd s)" by (rule all_blocks_cong) simp_all
  ultimately show "pool_inv M (fst s, ?p') xs (x # held)"
    using inv h by (simp add: pool_inv_def)
qed

text \<open>A byte that the caller writes to a block it holds.\<close>

lemma caller_store_inv:
  assumes inv: "pool_inv M s free held" and b: "\<exists>b\<in>set held. a - b < blockSize (snd s)"
  shows "pool_inv M (caller_store a v s) free held"
proof -
  obtain b where b: "b \<in> set held" "a - b < blockSize (snd s)" using b by blast
  have g: "good_chunks (snd s)" using inv by (simp add: pool_inv_def)
  have ball: "b \<in> set (all_blocks (snd s))" using inv_sets(1) [OF inv] b(1) by blast
  have "load_next ((mem (fst s))(a := v)) x = load_next (mem (fst s)) x" if "x \<in> set free" for x
  proof -
    have "x \<noteq> b" using inv_sets(2) [OF inv] b(1) that by auto
    moreover have "x \<in> set (all_blocks (snd s))" using inv_sets(1) [OF inv] that by blast
    ultimately show ?thesis using store_in_block_keeps_link [OF g _ ball _ b(2)] by blast
  qed
  then have "flist ((mem (fst s))(a := v)) (freeList (snd s)) free
           = flist (mem (fst s)) (freeList (snd s)) free"
    by (rule flist_cong)
  then show ?thesis
    using inv by (simp add: pool_inv_def)
qed

text \<open>Pushing a list of blocks, one after the other.\<close>

lemma fold_deallocate_flist:
  assumes "flist (mem (fst s)) (freeList (snd s)) free"
    and "distinct ns" and "0 \<notin> set ns" and "set ns \<inter> set free = {}"
    and "\<forall>a\<in>set ns. \<forall>b\<in>set ns \<union> set free. a \<noteq> b \<longrightarrow> apart a b"
  shows "flist (mem (fst (fold deallocate ns s))) (freeList (snd (fold deallocate ns s)))
           (rev ns @ free)"
  using assms
proof (induction ns arbitrary: s free)
  case Nil
  then show ?case by simp
next
  case (Cons a ns)
  have "apart x a" if "x \<in> set free" for x
  proof -
    have "a \<noteq> x" using Cons.prems(4) that by auto
    then have "apart a x" using Cons.prems(5) that by simp
    then show ?thesis by (rule apart_sym)
  qed
  then have push: "flist (mem (fst (deallocate a s))) (freeList (snd (deallocate a s))) (a # free)"
    using Cons.prems(1,3) by (simp add: flist_store load_store_same)
  have "flist (mem (fst (fold deallocate ns (deallocate a s))))
          (freeList (snd (fold deallocate ns (deallocate a s)))) (rev ns @ a # free)"
  proof (rule Cons.IH [OF push])
    show "distinct ns" "0 \<notin> set ns" "set ns \<inter> set (a # free) = {}"
      using Cons.prems(2,3,4) by auto
    show "\<forall>x\<in>set ns. \<forall>y\<in>set ns \<union> set (a # free). x \<noteq> y \<longrightarrow> apart x y"
    proof (intro ballI impI)
      fix x y assume x: "x \<in> set ns" and y: "y \<in> set ns \<union> set (a # free)" and ne: "x \<noteq> y"
      show "apart x y"
      proof (cases "y = a")
        case True
        have "apart a x" using Cons.prems(5) x ne True by simp
        then show ?thesis using True by (simp add: apart_sym)
      next
        case False
        then show ?thesis using Cons.prems(5) x y ne by simp
      qed
    qed
  qed
  then show ?case by simp
qed

lemma populate_blocks:
  "populate c 0 s = fold deallocate (blocks_of (blockSize (snd s)) (blockCount (snd s)) c) s"
  by (simp add: populate_fold blocks_of_def fold_map comp_def)

lemma fold_deallocate_keeps:
  "blockSize (snd (fold deallocate ns s)) = blockSize (snd s)"
  "blockCount (snd (fold deallocate ns s)) = blockCount (snd s)"
  "allocatedChunks (snd (fold deallocate ns s)) = allocatedChunks (snd s)"
  "malloc_calls (fst (fold deallocate ns s)) = malloc_calls (fst s)"
  by (induction ns arbitrary: s) simp_all

lemma length_all_blocks:
  "length (all_blocks p) = length (allocatedChunks p) * unat (blockCount p)"
  by (simp add: all_blocks_def blocks_of_def length_concat comp_def sum_list_triv)

lemma inv_count:
  assumes "pool_inv M s free held"
  shows "length free + length held = length (allocatedChunks (snd s)) * unat (blockCount (snd s))"
proof -
  have "mset (free @ held) = mset (all_blocks (snd s))"
    using assms by (simp add: pool_inv_def)
  then have "length (free @ held) = length (all_blocks (snd s))"
    by (rule mset_eq_length)
  then show ?thesis by (simp add: length_all_blocks)
qed

lemma all_blocks_snoc:
  "all_blocks (p\<lparr>allocatedChunks := allocatedChunks p @ [c]\<rparr>)
     = all_blocks p @ blocks_of (blockSize p) (blockCount p) c"
  by (simp add: all_blocks_def)

lemma contract_fits:
  "malloc_contract M n \<Longrightarrow> M k n \<noteq> 0 \<Longrightarrow> unat (M k n) + unat n \<le> 2 ^ 64"
  by (simp add: malloc_contract_def)

lemma contract_disjoint:
  assumes "malloc_contract M n" and "j < k" and "M j n \<noteq> 0" and "M k n \<noteq> 0"
  shows "unat (M j n) + unat n \<le> unat (M k n) \<or> unat (M k n) + unat n \<le> unat (M j n)"
proof -
  have "\<forall>j k. j < k \<and> M j n \<noteq> 0 \<and> M k n \<noteq> 0 \<longrightarrow>
          unat (M j n) + unat n \<le> unat (M k n) \<or> unat (M k n) + unat n \<le> unat (M j n)"
    using assms(1) unfolding malloc_contract_def by (rule conjunct2)
  then have "j < k \<and> M j n \<noteq> 0 \<and> M k n \<noteq> 0 \<longrightarrow>
          unat (M j n) + unat n \<le> unat (M k n) \<or> unat (M k n) + unat n \<le> unat (M j n)"
    by (rule allE [where x = j]) (rule allE [where x = k])
  then show ?thesis using assms(2-4) by (simp only: simp_thms)
qed

text \<open>A chunk that \<^verbatim>\<open>malloc\<close> returns now is clear of the chunks it returned before.\<close>

lemma good_chunks_snoc:
  assumes con: "malloc_contract M (blockSize p * blockCount p)"
    and g: "good_chunks p"
    and old: "\<forall>c'\<in>set (allocatedChunks p). \<exists>j<k. M j (blockSize p * blockCount p) = c'"
    and c: "M k (blockSize p * blockCount p) = c" "c \<noteq> 0"
  shows "good_chunks (p\<lparr>allocatedChunks := allocatedChunks p @ [c]\<rparr>)"
proof -
  let ?S = "blockSize p * blockCount p"
  have S: "unat ?S = unat (blockSize p) * unat (blockCount p)"
    using g by (simp add: good_chunks_def unat_word_ariths)
  have pos: "8 \<le> unat ?S"
  proof -
    have "0 < unat (blockCount p)" using g by (simp add: good_chunks_def unat_gt_0)
    then have "1 \<le> unat (blockCount p)" by simp
    then have "unat (blockSize p) * 1 \<le> unat (blockSize p) * unat (blockCount p)"
      by (rule mult_le_mono2)
    then have "unat (blockSize p) \<le> unat (blockSize p) * unat (blockCount p)"
      by (simp only: mult_1_right)
    then show ?thesis using good_bs [OF g] S by linarith
  qed
  have fit: "unat c + unat ?S \<le> 2 ^ 64"
    using contract_fits [OF con, of k] c by simp
  have dis: "unat c' + unat ?S \<le> unat c \<or> unat c + unat ?S \<le> unat c'"
    if "c' \<in> set (allocatedChunks p)" for c'
  proof -
    have "\<exists>j<k. M j ?S = c'" using old that by (rule bspec)
    then obtain j where j: "j < k" "M j ?S = c'" by auto
    have "c' \<noteq> 0" using g that by (simp add: good_chunks_def)
    then have nz: "M j ?S \<noteq> 0" "M k ?S \<noteq> 0" using j c by simp_all
    have "unat (M j ?S) + unat ?S \<le> unat (M k ?S) \<or> unat (M k ?S) + unat ?S \<le> unat (M j ?S)"
      using con j(1) nz by (rule contract_disjoint)
    then show ?thesis unfolding j(2) c(1) .
  qed
  have new: "c \<notin> set (allocatedChunks p)"
  proof
    assume "c \<in> set (allocatedChunks p)"
    from dis [OF this] show False using pos by linarith
  qed
  let ?p' = "p\<lparr>allocatedChunks := allocatedChunks p @ [c]\<rparr>"
  have sel: "blockSize ?p' = blockSize p" "blockCount ?p' = blockCount p"
    "allocatedChunks ?p' = allocatedChunks p @ [c]"
    by simp_all
  have pair: "unat a + unat ?S \<le> unat b \<or> unat b + unat ?S \<le> unat a"
    if a: "a \<in> set (allocatedChunks p @ [c])" and b: "b \<in> set (allocatedChunks p @ [c])"
      and ne: "a \<noteq> b" for a b
  proof (cases "a = c")
    case True
    then have "b \<in> set (allocatedChunks p)" using b ne by auto
    from dis [OF this] show ?thesis using True by blast
  next
    case False
    then have a': "a \<in> set (allocatedChunks p)" using a by auto
    show ?thesis
    proof (cases "b = c")
      case True
      from dis [OF a'] show ?thesis using True by blast
    next
      case False
      then have b': "b \<in> set (allocatedChunks p)" using b by auto
      have "\<forall>c\<in>set (allocatedChunks p). \<forall>c'\<in>set (allocatedChunks p). c \<noteq> c' \<longrightarrow>
         unat c + unat (blockSize p) * unat (blockCount p) \<le> unat c'
       \<or> unat c' + unat (blockSize p) * unat (blockCount p) \<le> unat c"
        using g unfolding good_chunks_def by blast
      then show ?thesis using a' b' ne unfolding S by blast
    qed
  qed
  have one: "a \<noteq> 0 \<and> unat a + unat ?S \<le> 2 ^ 64" if a: "a \<in> set (allocatedChunks p @ [c])" for a
  proof (cases "a = c")
    case True
    then show ?thesis using c(2) fit by simp
  next
    case False
    then have a': "a \<in> set (allocatedChunks p)" using a by auto
    have "\<forall>c\<in>set (allocatedChunks p).
         c \<noteq> 0 \<and> unat c + unat (blockSize p) * unat (blockCount p) \<le> 2 ^ 64"
      using g unfolding good_chunks_def by blast
    then show ?thesis using a' unfolding S by blast
  qed
  have base: "sizeof_Node \<le> blockSize p" "blockCount p \<noteq> 0"
    "unat (blockSize p) * unat (blockCount p) < 2 ^ 64" "distinct (allocatedChunks p)"
    using g unfolding good_chunks_def by blast+
  have d: "distinct (allocatedChunks p @ [c])" using base(4) new by simp
  show ?thesis
    unfolding good_chunks_def sel S [symmetric]
    using base(1,2) base(3) [folded S] d one pair by blast
qed

lemma blocks_of_nonempty: "bc \<noteq> 0 \<Longrightarrow> blocks_of bs bc c \<noteq> []"
  using hd_blocks_of [of bc c bs] by auto


text \<open>A growth cycle that gets its chunk pushes the blocks of the chunk, lowest first, on
  top of the free list.\<close>

lemma grow_inv:
  assumes con: "malloc_contract M (blockSize p * blockCount p)"
    and inv: "pool_inv M (w, p) free held"
    and c: "M (malloc_calls w) (blockSize p * blockCount p) = c" "c \<noteq> 0"
  shows "\<exists>s'. allocateChunk M (w, p) = (Inr (), s')
           \<and> pool_inv M s' (rev (blocks_of (blockSize p) (blockCount p) c) @ free) held
           \<and> allocatedChunks (snd s') = allocatedChunks p @ [c]
           \<and> malloc_calls (fst s') = Suc (malloc_calls w)
           \<and> blockSize (snd s') = blockSize p \<and> blockCount (snd s') = blockCount p"
proof -
  let ?S = "blockSize p * blockCount p"
  let ?w1 = "w\<lparr>malloc_calls := Suc (malloc_calls w)\<rparr>"
  let ?p1 = "p\<lparr>allocatedChunks := allocatedChunks p @ [c]\<rparr>"
  let ?ns = "blocks_of (blockSize p) (blockCount p) c"
  let ?s' = "fold deallocate ?ns (?w1, ?p1)"
  have g: "good_chunks p" and old: "\<forall>c'\<in>set (allocatedChunks p). \<exists>j<malloc_calls w. M j ?S = c'"
    and fl0: "flist (mem w) (freeList p) free"
    and ms0: "mset free + mset held = mset (all_blocks p)"
    using inv by (simp_all add: pool_inv_def)
  have ac: "allocateChunk M (w, p) = (Inr (), ?s')"
    using c by (simp add: allocateChunk_nonnull populate_blocks)
  have g1: "good_chunks ?p1"
    using con g old c by (rule good_chunks_snoc)
  have ab: "all_blocks ?p1 = all_blocks p @ ?ns"
    by (rule all_blocks_snoc)
  have d1: "distinct (all_blocks p @ ?ns)"
    using good_blocks_distinct [OF g1] ab by simp
  have sub: "set free \<subseteq> set (all_blocks p)"
    using inv_sets(1) [OF inv] by auto
  have fl: "flist (mem (fst ?s')) (freeList (snd ?s')) (rev ?ns @ free)"
  proof (rule fold_deallocate_flist)
    show "flist (mem (fst (?w1, ?p1))) (freeList (snd (?w1, ?p1))) free"
      using fl0 by simp
    show "distinct ?ns" using d1 by simp
    show "0 \<notin> set ?ns"
      using good_blocks_nonnull [OF g1] ab by auto
    show "set ?ns \<inter> set free = {}"
      using d1 sub by auto
    show "\<forall>a\<in>set ?ns. \<forall>b\<in>set ?ns \<union> set free. a \<noteq> b \<longrightarrow> apart a b"
    proof (intro ballI impI)
      fix a b assume "a \<in> set ?ns" "b \<in> set ?ns \<union> set free" "a \<noteq> b"
      then have "a \<in> set (all_blocks ?p1)" "b \<in> set (all_blocks ?p1)"
        using sub ab by auto
      then show "apart a b" using \<open>a \<noteq> b\<close> by (rule good_blocks_apart [OF g1])
    qed
  qed
  have keep: "blockSize (snd ?s') = blockSize p" "blockCount (snd ?s') = blockCount p"
    "allocatedChunks (snd ?s') = allocatedChunks p @ [c]"
    "malloc_calls (fst ?s') = Suc (malloc_calls w)"
    by (simp_all add: fold_deallocate_keeps)
  have g': "good_chunks (snd ?s')"
    using g1 good_chunks_cong [of "snd ?s'" ?p1] keep by simp
  have ab': "all_blocks (snd ?s') = all_blocks p @ ?ns"
    using all_blocks_cong [of "snd ?s'" ?p1] keep ab by simp
  have orc: "\<forall>c'\<in>set (allocatedChunks (snd ?s')).
      \<exists>j<malloc_calls (fst ?s'). M j (blockSize (snd ?s') * blockCount (snd ?s')) = c'"
  proof
    fix c' assume "c' \<in> set (allocatedChunks (snd ?s'))"
    then have "c' = c \<or> c' \<in> set (allocatedChunks p)" using keep by auto
    then show "\<exists>j<malloc_calls (fst ?s'). M j (blockSize (snd ?s') * blockCount (snd ?s')) = c'"
    proof
      assume "c' = c"
      then show ?thesis using c(1) keep by auto
    next
      assume "c' \<in> set (allocatedChunks p)"
      then obtain j where "j < malloc_calls w" "M j ?S = c'" using old by auto
      then show ?thesis using keep less_Suc_eq by auto
    qed
  qed
  have ms: "mset (rev ?ns @ free) + mset held = mset (all_blocks (snd ?s'))"
    using ms0 ab' by (simp add: ac_simps)
  have "pool_inv M ?s' (rev ?ns @ free) held"
    unfolding pool_inv_def using g' orc fl ms by blast
  then show ?thesis using ac keep by blast
qed

text \<open>What one \<^verbatim>\<open>allocate()\<close> does to a pool that satisfies the invariant.\<close>

lemma allocate_inv:
  assumes con: "malloc_contract M (blockSize (snd s) * blockCount (snd s))"
    and inv: "pool_inv M s free held"
  shows "\<exists>r s'. allocate M s = Some (r, s')
     \<and> blockSize (snd s') = blockSize (snd s) \<and> blockCount (snd s') = blockCount (snd s)
     \<and> (case r of
          Inl e \<Rightarrow> free = [] \<and> pool_inv M s' free held
                   \<and> allocatedChunks (snd s') = allocatedChunks (snd s)
        | Inr b \<Rightarrow> \<exists>free'. pool_inv M s' free' (b # held)
               \<and> (free \<noteq> [] \<longrightarrow> free = b # free'
                     \<and> allocatedChunks (snd s') = allocatedChunks (snd s)
                     \<and> malloc_calls (fst s') = malloc_calls (fst s))
               \<and> (free = [] \<longrightarrow>
                     length (allocatedChunks (snd s')) = Suc (length (allocatedChunks (snd s)))
                     \<and> malloc_calls (fst s') = Suc (malloc_calls (fst s))))"
proof (cases free)
  case (Cons x xs)
  show ?thesis
    using allocate_pop [OF inv [unfolded Cons]] Cons by auto
next
  case Nil
  obtain w p where s: "s = (w, p)" by (cases s)
  let ?S = "blockSize p * blockCount p"
  let ?c = "M (malloc_calls w) ?S"
  have empty: "freeList (snd s) = 0"
    using inv Nil by (simp add: pool_inv_def)
  show ?thesis
  proof (cases "?c = 0")
    case True
    let ?s' = "(w\<lparr>malloc_calls := Suc (malloc_calls w)\<rparr>, p)"
    have a: "allocate M s = Some (Inl bad_alloc, ?s')"
      using empty True s by (simp add: allocate_empty allocateChunk_null)
    have "\<forall>c\<in>set (allocatedChunks p). \<exists>j<malloc_calls w. M j ?S = c"
      using inv s by (simp add: pool_inv_def)
    then have "\<forall>c\<in>set (allocatedChunks p). \<exists>j<Suc (malloc_calls w). M j ?S = c"
      using less_Suc_eq by blast
    then have "pool_inv M ?s' free held"
      using inv s by (simp add: pool_inv_def)
    then show ?thesis using a Nil s by simp
  next
    case False
    obtain s1 where s1: "allocateChunk M (w, p) = (Inr (), s1)"
        "pool_inv M s1 (rev (blocks_of (blockSize p) (blockCount p) ?c) @ free) held"
        "allocatedChunks (snd s1) = allocatedChunks p @ [?c]"
        "blockSize (snd s1) = blockSize p" "blockCount (snd s1) = blockCount p"
        "malloc_calls (fst s1) = Suc (malloc_calls w)"
      using grow_inv [OF con [unfolded s snd_conv] inv [unfolded s] refl False] by blast
    have "blockCount p \<noteq> 0"
      using inv s by (simp add: pool_inv_def good_chunks_def)
    then have "rev (blocks_of (blockSize p) (blockCount p) ?c) \<noteq> []"
      using blocks_of_nonempty by simp
    then obtain y ys where y: "rev (blocks_of (blockSize p) (blockCount p) ?c) = y # ys"
      by (cases "rev (blocks_of (blockSize p) (blockCount p) ?c)") auto
    have inv1: "pool_inv M s1 (y # ys) held"
      using s1(2) y Nil by simp
    have "allocate M s = allocate M s1"
      using empty s s1(1) by (simp add: allocate_empty)
    then have a: "allocate M s = Some (Inr y, (fst s1, (snd s1)\<lparr>freeList := load_next (mem (fst s1)) y\<rparr>))"
      using allocate_pop(1) [OF inv1] by simp
    show ?thesis
      using a allocate_pop(2) [OF inv1] s1(3,4,5,6) Nil s by auto
  qed
qed

text \<open>Every block of a chunk starts inside the chunk.\<close>

lemma block_in_its_chunk:
  assumes g: "good_chunks p" and a: "a \<in> set (all_blocks p)"
  shows "\<exists>c\<in>set (allocatedChunks p). in_chunk p c a"
proof -
  obtain c where c: "c \<in> set (allocatedChunks p)" "a \<in> set (blocks_of (blockSize p) (blockCount p) c)"
    using a by (auto simp: all_blocks_mem)
  have fc: "unat c + unat (blockSize p) * unat (blockCount p) \<le> 2 ^ 64"
    using g c(1) by (simp add: good_chunks_def)
  have S: "unat (blockSize p * blockCount p) = unat (blockSize p) * unat (blockCount p)"
    using g by (simp add: good_chunks_def unat_word_ariths)
  have pos: "unat c \<le> unat a \<and> unat a + unat (blockSize p) \<le> unat c + unat (blockSize p) * unat (blockCount p)"
    using block_in_chunk [OF c(2) fc] .
  then have "c \<le> a" by (simp add: word_le_nat_alt)
  then have "unat (a - c) = unat a - unat c" by (rule unat_sub)
  then have "unat (a - c) < unat (blockSize p * blockCount p)"
    using pos good_bs [OF g] S by linarith
  then have "in_chunk p c a" by (simp add: in_chunk_def word_less_nat_alt)
  then show ?thesis using c(1) by blast
qed



text \<open>A run of \<^verbatim>\<open>allocate()\<close> calls that all return.\<close>

lemma allocate_n_inv:
  assumes "malloc_contract M (blockSize (snd s) * blockCount (snd s))"
    and "pool_inv M s free held"
    and "allocate_n M n s = Some (Inr hs, s')"
  shows "\<exists>free'. pool_inv M s' free' (rev hs @ held) \<and> length hs = n"
  using assms
proof (induction n arbitrary: s free held hs)
  case 0
  then show ?case by auto
next
  case (Suc n)
  obtain r s1 where a: "allocate M s = Some (r, s1)"
    and k: "blockSize (snd s1) = blockSize (snd s)" "blockCount (snd s1) = blockCount (snd s)"
    and post: "case r of Inl e \<Rightarrow> True | Inr b \<Rightarrow> \<exists>free'. pool_inv M s1 free' (b # held)"
    using allocate_inv [OF Suc.prems(1,2)] by (force split: sum.splits)
  from Suc.prems(3) a obtain b hs' where r: "r = Inr b" and hs: "hs = b # hs'"
    and rest: "allocate_n M n s1 = Some (Inr hs', s')"
    by (auto split: sum.splits option.splits prod.splits)
  obtain free1 where inv1: "pool_inv M s1 free1 (b # held)"
    using post r by auto
  have con1: "malloc_contract M (blockSize (snd s1) * blockCount (snd s1))"
    using Suc.prems(1) k by simp
  from Suc.IH [OF con1 inv1 rest] show ?case using hs by auto
qed

lemma allocate_n_handles:
  assumes con: "malloc_contract M (blockSize (snd s) * blockCount (snd s))"
    and inv: "pool_inv M s free held"
    and run: "allocate_n M n s = Some (Inr hs, s')"
  shows "distinct hs \<and> set hs \<inter> set held = {}
       \<and> (\<forall>h\<in>set hs. \<exists>c\<in>set (allocatedChunks (snd s')). in_chunk (snd s') c h)"
proof -
  obtain free' where inv': "pool_inv M s' free' (rev hs @ held)"
    using allocate_n_inv [OF con inv run] by blast
  have "distinct (free' @ rev hs @ held)" using inv_sets(2) [OF inv'] .
  then have d: "distinct hs \<and> set hs \<inter> set held = {}" by auto
  have g: "good_chunks (snd s')" using inv' by (simp add: pool_inv_def)
  have "set hs \<subseteq> set (all_blocks (snd s'))" using inv_sets(1) [OF inv'] by auto
  then have "\<forall>h\<in>set hs. \<exists>c\<in>set (allocatedChunks (snd s')). in_chunk (snd s') c h"
    using block_in_its_chunk [OF g] by blast
  with d show ?thesis by blast
qed

text \<open>As long as the free list lasts, \<^verbatim>\<open>allocate()\<close> pops it and nothing else happens.\<close>

lemma allocate_n_pops:
  assumes "pool_inv M s free held" and "n \<le> length free"
  shows "\<exists>s'. allocate_n M n s = Some (Inr (take n free), s')
           \<and> pool_inv M s' (drop n free) (rev (take n free) @ held)
           \<and> allocatedChunks (snd s') = allocatedChunks (snd s)
           \<and> malloc_calls (fst s') = malloc_calls (fst s)
           \<and> blockSize (snd s') = blockSize (snd s) \<and> blockCount (snd s') = blockCount (snd s)"
  using assms
proof (induction n arbitrary: s free held)
  case 0
  then show ?case by simp
next
  case (Suc n)
  then obtain x xs where f: "free = x # xs" by (cases free) auto
  let ?s1 = "(fst s, (snd s)\<lparr>freeList := load_next (mem (fst s)) x\<rparr>)"
  have a: "allocate M s = Some (Inr x, ?s1)" and inv1: "pool_inv M ?s1 xs (x # held)"
    using allocate_pop [OF Suc.prems(1) [unfolded f]] by simp_all
  have "n \<le> length xs" using Suc.prems(2) f by simp
  from Suc.IH [OF inv1 this] obtain s' where
    "allocate_n M n ?s1 = Some (Inr (take n xs), s')"
    "pool_inv M s' (drop n xs) (rev (take n xs) @ x # held)"
    "allocatedChunks (snd s') = allocatedChunks (snd ?s1)"
    "malloc_calls (fst s') = malloc_calls (fst ?s1)"
    "blockSize (snd s') = blockSize (snd ?s1)" "blockCount (snd s') = blockCount (snd ?s1)"
    by blast
  then show ?case using a f by simp
qed

text \<open>One \<^verbatim>\<open>allocate()\<close> more than the free list is long acquires exactly one chunk.\<close>

lemma allocate_past_free_list:
  assumes "malloc_contract M (blockSize (snd s) * blockCount (snd s))"
    and "pool_inv M s free held"
    and "allocate_n M (Suc (length free)) s = Some (Inr hs, s')"
  shows "length (allocatedChunks (snd s')) = Suc (length (allocatedChunks (snd s)))
       \<and> malloc_calls (fst s') = Suc (malloc_calls (fst s))"
  using assms
proof (induction free arbitrary: s held hs)
  case Nil
  obtain r s1 where a: "allocate M s = Some (r, s1)"
    and post: "case r of Inl e \<Rightarrow> True
        | Inr b \<Rightarrow> length (allocatedChunks (snd s1)) = Suc (length (allocatedChunks (snd s)))
                   \<and> malloc_calls (fst s1) = Suc (malloc_calls (fst s))"
    using allocate_inv [OF Nil.prems(1,2)] by (force split: sum.splits)
  from Nil.prems(3) a have "\<exists>b. r = Inr b \<and> s' = s1"
    by (auto split: sum.splits)
  then show ?case using post by auto
next
  case (Cons x xs)
  let ?s1 = "(fst s, (snd s)\<lparr>freeList := load_next (mem (fst s)) x\<rparr>)"
  have a: "allocate M s = Some (Inr x, ?s1)" and inv1: "pool_inv M ?s1 xs (x # held)"
    using allocate_pop [OF Cons.prems(2)] by simp_all
  from Cons.prems(3) a obtain hs' where rest: "allocate_n M (Suc (length xs)) ?s1 = Some (Inr hs', s')"
    by (auto split: sum.splits option.splits prod.splits)
  have con1: "malloc_contract M (blockSize (snd ?s1) * blockCount (snd ?s1))"
    using Cons.prems(1) by simp
  from Cons.IH [OF con1 inv1 rest] show ?case by simp
qed

text \<open>The constructor establishes the invariant.\<close>

lemma ctor_inv:
  assumes con: "malloc_contract M (bs * bc)"
    and sz: "sizeof_Node \<le> bs" "bc \<noteq> 0" "unat bs * unat bc < 2 ^ 64"
    and ctor: "MemoryPool_ctor M w bs bc = (Inr (), s)"
  shows "pool_inv M s (rev (blocks_of bs bc (M (malloc_calls w) (bs * bc)))) []
       \<and> allocatedChunks (snd s) = [M (malloc_calls w) (bs * bc)]
       \<and> malloc_calls (fst s) = Suc (malloc_calls w)
       \<and> blockSize (snd s) = bs \<and> blockCount (snd s) = bc"
proof -
  let ?p0 = "\<lparr>freeList = 0, allocatedChunks = [], blockSize = bs, blockCount = bc\<rparr>"
  have inv0: "pool_inv M (w, ?p0) [] []"
    using sz by (simp add: pool_inv_def good_chunks_def all_blocks_def)
  have run: "allocateChunk M (w, ?p0) = (Inr (), s)"
    using ctor by (simp add: MemoryPool_ctor_def Let_def)
  then have nz: "M (malloc_calls w) (bs * bc) \<noteq> 0"
    by (auto simp: allocateChunk_def Let_def split: if_splits)
  show ?thesis
    using grow_inv [of M ?p0 w "[]" "[]", OF _ inv0 _ nz] con run by auto
qed

lemma run_inv:
  assumes "malloc_contract M (blockSize (snd s) * blockCount (snd s))"
    and "pool_inv M s free held"
    and "run M cs s held = Some (s', held')"
  shows "\<exists>free'. pool_inv M s' free' held'
           \<and> length (allocatedChunks (snd s)) \<le> length (allocatedChunks (snd s'))
           \<and> blockSize (snd s') = blockSize (snd s) \<and> blockCount (snd s') = blockCount (snd s)"
  using assms
proof (induction cs arbitrary: s free held)
  case Nil
  then show ?case by auto
next
  case (Cons c cs)
  show ?case
  proof (cases c)
    case Allocate
    obtain r s1 where a: "allocate M s = Some (r, s1)"
      and k: "blockSize (snd s1) = blockSize (snd s)" "blockCount (snd s1) = blockCount (snd s)"
      and post: "case r of
            Inl e \<Rightarrow> pool_inv M s1 free held
                \<and> length (allocatedChunks (snd s)) \<le> length (allocatedChunks (snd s1))
          | Inr b \<Rightarrow> (\<exists>free'. pool_inv M s1 free' (b # held))
                \<and> length (allocatedChunks (snd s)) \<le> length (allocatedChunks (snd s1))"
      using allocate_inv [OF Cons.prems(1,2)] by (cases free) (force split: sum.splits)+
    have con1: "malloc_contract M (blockSize (snd s1) * blockCount (snd s1))"
      using Cons.prems(1) k by simp
    show ?thesis
    proof (cases r)
      case (Inl e)
      then have rest: "run M cs s1 held = Some (s', held')"
        using Cons.prems(3) a Allocate by simp
      have inv1: "pool_inv M s1 free held"
        and le: "length (allocatedChunks (snd s)) \<le> length (allocatedChunks (snd s1))"
        using post Inl by simp_all
      from Cons.IH [OF con1 inv1 rest] show ?thesis using le k by auto
    next
      case (Inr b)
      then have rest: "run M cs s1 (b # held) = Some (s', held')"
        using Cons.prems(3) a Allocate by simp
      obtain free1 where inv1: "pool_inv M s1 free1 (b # held)"
        and le: "length (allocatedChunks (snd s)) \<le> length (allocatedChunks (snd s1))"
        using post Inr by auto
      from Cons.IH [OF con1 inv1 rest] show ?thesis using le k by auto
    qed
  next
    case (Deallocate b)
    with Cons.prems(3) have b: "b \<in> set held"
      and rest: "run M cs (deallocate b s) (remove1 b held) = Some (s', held')"
      by (auto split: if_splits)
    have inv1: "pool_inv M (deallocate b s) (b # free) (remove1 b held)"
      using Cons.prems(2) b by (rule deallocate_inv)
    have con1: "malloc_contract M (blockSize (snd (deallocate b s)) * blockCount (snd (deallocate b s)))"
      using Cons.prems(1) by simp
    from Cons.IH [OF con1 inv1 rest] show ?thesis by auto
  next
    case (Store a v)
    with Cons.prems(3) have b: "\<exists>b\<in>set held. a - b < blockSize (snd s)"
      and rest: "run M cs (caller_store a v s) held = Some (s', held')"
      by (auto split: if_splits)
    have inv1: "pool_inv M (caller_store a v s) free held"
      using Cons.prems(2) b by (rule caller_store_inv)
    have con1: "malloc_contract M (blockSize (snd (caller_store a v s)) * blockCount (snd (caller_store a v s)))"
      using Cons.prems(1) by simp
    from Cons.IH [OF con1 inv1 rest] show ?thesis by auto
  qed
qed

lemma small_heap_addr:
  "k < 3 \<Longrightarrow> unat (0x1000 + 0x100 * of_nat k :: addr) = 4096 + 256 * k"
proof -
  assume "k < 3"
  then consider "k = 0" | "k = 1" | "k = 2" by linarith
  then show ?thesis by cases simp_all
qed

lemma small_heap_contract:
  assumes "n \<le> 0x100"
  shows "malloc_contract small_heap n"
proof -
  have n: "unat n \<le> 256" using assms by (simp add: word_le_nat_alt)
  have v: "small_heap k n \<noteq> 0 \<Longrightarrow> k < 3 \<and> unat (small_heap k n) = 4096 + 256 * k" for k
    using small_heap_addr [of k] by (auto simp: small_heap_def split: if_splits)
  show ?thesis
    unfolding malloc_contract_def
  proof (intro conjI allI impI)
    fix k assume "small_heap k n \<noteq> 0"
    from v [OF this] show "unat (small_heap k n) + unat n \<le> 2 ^ 64" using n by simp
  next
    fix j k assume a: "j < k \<and> small_heap j n \<noteq> 0 \<and> small_heap k n \<noteq> 0"
    then have "unat (small_heap j n) = 4096 + 256 * j" "unat (small_heap k n) = 4096 + 256 * k"
      using v by blast+
    then show "unat (small_heap j n) + unat n \<le> unat (small_heap k n)
       \<or> unat (small_heap k n) + unat n \<le> unat (small_heap j n)"
      using a n by simp
  qed
qed

section \<open>Pools whose blocks can hold a link\<close>

lemma flist_unique: "flist m h xs \<Longrightarrow> flist m h ys \<Longrightarrow> xs = ys"
proof (induction xs arbitrary: h ys)
  case Nil
  then show ?case by (cases ys) auto
next
  case (Cons x xs)
  then show ?case by (cases ys) auto
qed



lemma run_reaches_inv:
  assumes con: "malloc_contract M (bs * bc)"
    and sz: "sizeof_Node \<le> bs" "bc \<noteq> 0" "unat bs * unat bc < 2 ^ 64"
    and ctor: "MemoryPool_ctor M w bs bc = (Inr (), s0)"
    and run: "run M cs s0 [] = Some (s, held)"
  shows "\<exists>free. pool_inv M s free held \<and> blockSize (snd s) = bs \<and> blockCount (snd s) = bc"
proof -
  have inv0: "pool_inv M s0 (rev (blocks_of bs bc (M (malloc_calls w) (bs * bc)))) []"
    and st: "blockSize (snd s0) = bs" "blockCount (snd s0) = bc"
    using ctor_inv [OF con sz ctor] by simp_all
  have con0: "malloc_contract M (blockSize (snd s0) * blockCount (snd s0))"
    using con st by simp
  show ?thesis
    using run_inv [OF con0 inv0 run] st by auto
qed

text \<open>
  The theorems of this section are about a pool that was constructed with a block size
  of at least \<open>sizeof_Node\<close>, at least one block per chunk and a chunk size that does not
  overflow, on a \<^verbatim>\<open>malloc\<close> that keeps its contract for the chunk size, and that has then
  served a run of calls \<open>cs\<close> by a caller who gave back only blocks it held and wrote
  only to blocks it held.
\<close>

text \<open>Conservation: a further run \<open>cs'\<close> does not make the chunks fewer, and after it the
  free list has one node for every block of every chunk that the caller does not hold.\<close>

theorem linked_pool_conservation:
  assumes con: "malloc_contract M (bs * bc)"
    and sz: "sizeof_Node \<le> bs" "bc \<noteq> 0" "unat bs * unat bc < 2 ^ 64"
    and ctor: "MemoryPool_ctor M w bs bc = (Inr (), s0)"
    and run: "run M cs s0 [] = Some (s, held)"
    and run': "run M cs' s held = Some (s', held')"
  shows "length (allocatedChunks (snd s)) \<le> length (allocatedChunks (snd s'))
       \<and> (\<exists>free'. flist (mem (fst s')) (freeList (snd s')) free'
              \<and> length free' = length (allocatedChunks (snd s')) * unat bc - length held')"
proof -
  obtain free where inv: "pool_inv M s free held"
    and st: "blockSize (snd s) = bs" "blockCount (snd s) = bc"
    using run_reaches_inv [OF con sz ctor run] by blast
  have con1: "malloc_contract M (blockSize (snd s) * blockCount (snd s))"
    using con st by simp
  obtain free' where inv': "pool_inv M s' free' held'"
    and le: "length (allocatedChunks (snd s)) \<le> length (allocatedChunks (snd s'))"
    and st': "blockCount (snd s') = blockCount (snd s)"
    using run_inv [OF con1 inv run'] by blast
  have "length free' + length held' = length (allocatedChunks (snd s')) * unat (blockCount (snd s'))"
    using inv' by (rule inv_count)
  then have "length free' = length (allocatedChunks (snd s')) * unat bc - length held'"
    using st st' by simp
  moreover have "flist (mem (fst s')) (freeList (snd s')) free'"
    using inv' by (simp add: pool_inv_def)
  ultimately show ?thesis using le by blast
qed

text \<open>Growth trigger: the fresh pool serves as many calls as a chunk has blocks from its
  first chunk, with the one \<^verbatim>\<open>malloc\<close> call of the constructor; one call more, if it returns
  a block, has acquired a second chunk.\<close>

theorem linked_pool_growth_trigger:
  assumes con: "malloc_contract M (bs * bc)"
    and sz: "sizeof_Node \<le> bs" "bc \<noteq> 0" "unat bs * unat bc < 2 ^ 64"
    and ctor: "MemoryPool_ctor M w bs bc = (Inr (), s)"
  shows "(\<exists>hs s1. allocate_n M (unat bc) s = Some (Inr hs, s1)
            \<and> length (allocatedChunks (snd s1)) = 1
            \<and> malloc_calls (fst s1) = Suc (malloc_calls w))
       \<and> (\<forall>hs s2. allocate_n M (Suc (unat bc)) s = Some (Inr hs, s2) \<longrightarrow>
            length (allocatedChunks (snd s2)) = 2
            \<and> malloc_calls (fst s2) = Suc (Suc (malloc_calls w)))"
proof -
  let ?free = "rev (blocks_of bs bc (M (malloc_calls w) (bs * bc)))"
  have inv: "pool_inv M s ?free []"
    and st: "allocatedChunks (snd s) = [M (malloc_calls w) (bs * bc)]"
      "malloc_calls (fst s) = Suc (malloc_calls w)"
      "blockSize (snd s) = bs" "blockCount (snd s) = bc"
    using ctor_inv [OF con sz ctor] by simp_all
  have len: "length ?free = unat bc" by (simp add: blocks_of_def)
  have con': "malloc_contract M (blockSize (snd s) * blockCount (snd s))"
    using con st by simp
  have first: "\<exists>hs s1. allocate_n M (unat bc) s = Some (Inr hs, s1)
            \<and> length (allocatedChunks (snd s1)) = 1
            \<and> malloc_calls (fst s1) = Suc (malloc_calls w)"
    using allocate_n_pops [OF inv, of "unat bc"] len st by auto
  have second: "length (allocatedChunks (snd s2)) = 2
            \<and> malloc_calls (fst s2) = Suc (Suc (malloc_calls w))"
    if r: "allocate_n M (Suc (unat bc)) s = Some (Inr hs, s2)" for hs s2
  proof -
    have "allocate_n M (Suc (length ?free)) s = Some (Inr hs, s2)"
      using r by (simp only: len)
    from allocate_past_free_list [OF con' inv this] show ?thesis
      using st by (simp add: numeral_2_eq_2)
  qed
  show ?thesis using first second by blast
qed

text \<open>No loss: the handles of \<open>n\<close> calls of \<^verbatim>\<open>allocate()\<close> in a row are distinct, none is a
  block the caller held before, and each lies in a chunk of the pool.\<close>

theorem linked_pool_handles:
  assumes con: "malloc_contract M (bs * bc)"
    and sz: "sizeof_Node \<le> bs" "bc \<noteq> 0" "unat bs * unat bc < 2 ^ 64"
    and ctor: "MemoryPool_ctor M w bs bc = (Inr (), s0)"
    and run: "run M cs s0 [] = Some (s, held)"
    and allocs: "allocate_n M n s = Some (Inr hs, s')"
  shows "length hs = n \<and> distinct hs \<and> set hs \<inter> set held = {}
       \<and> (\<forall>h\<in>set hs. \<exists>c\<in>set (allocatedChunks (snd s')). in_chunk (snd s') c h)"
proof -
  obtain free where inv: "pool_inv M s free held"
    and st: "blockSize (snd s) = bs" "blockCount (snd s) = bc"
    using run_reaches_inv [OF con sz ctor run] by blast
  have con': "malloc_contract M (blockSize (snd s) * blockCount (snd s))"
    using con st by simp
  show ?thesis
    using allocate_n_handles [OF con' inv allocs] allocate_n_inv [OF con' inv allocs] by blast
qed

text \<open>Growth: a growth cycle that gets its chunk records it and puts its blocks, as many as
  a chunk has, on top of the free list.\<close>

theorem linked_pool_growth:
  assumes con: "malloc_contract M (bs * bc)"
    and sz: "sizeof_Node \<le> bs" "bc \<noteq> 0" "unat bs * unat bc < 2 ^ 64"
    and ctor: "MemoryPool_ctor M w0 bs bc = (Inr (), s0)"
    and run: "run M cs s0 [] = Some ((w, p), held)"
    and free: "flist (mem w) (freeList p) free"
    and c: "M (malloc_calls w) (bs * bc) \<noteq> 0"
  shows "\<exists>s' new. allocateChunk M (w, p) = (Inr (), s')
           \<and> flist (mem (fst s')) (freeList (snd s')) (new @ free)
           \<and> length new = unat bc
           \<and> set new = set (blocks_of bs bc (M (malloc_calls w) (bs * bc)))
           \<and> allocatedChunks (snd s') = allocatedChunks p @ [M (malloc_calls w) (bs * bc)]"
proof -
  obtain free0 where inv0: "pool_inv M (w, p) free0 held"
    and st: "blockSize p = bs" "blockCount p = bc"
    using run_reaches_inv [OF con sz ctor run] by auto
  have "flist (mem w) (freeList p) free0"
    using inv0 by (simp add: pool_inv_def)
  then have "free0 = free" using free by (rule flist_unique)
  then have inv: "pool_inv M (w, p) free held" using inv0 by simp
  let ?c = "M (malloc_calls w) (blockSize p * blockCount p)"
  let ?new = "rev (blocks_of (blockSize p) (blockCount p) ?c)"
  have con': "malloc_contract M (blockSize p * blockCount p)"
    using con st by simp
  have c': "?c \<noteq> 0" using c st by simp
  obtain s' where s': "allocateChunk M (w, p) = (Inr (), s')"
      "pool_inv M s' (?new @ free) held"
      "allocatedChunks (snd s') = allocatedChunks p @ [?c]"
    using grow_inv [OF con' inv refl c'] by blast
  have "flist (mem (fst s')) (freeList (snd s')) (?new @ free)"
    using s'(2) by (simp add: pool_inv_def)
  moreover have "length ?new = unat bc" using st by (simp add: blocks_of_def)
  moreover have "set ?new = set (blocks_of bs bc (M (malloc_calls w) (bs * bc)))"
    using st by simp
  ultimately show ?thesis using s'(1,3) st by blast
qed

text \<open>The hypotheses can be met: the pool of two blocks of 16 bytes on \<open>small_heap\<close>.\<close>

lemma linked_pool_example:
  "\<exists>s. MemoryPool_ctor small_heap world0 16 2 = (Inr (), s)
     \<and> (\<exists>hs s1. allocate_n small_heap 2 s = Some (Inr hs, s1)
            \<and> length (allocatedChunks (snd s1)) = 1)
     \<and> (\<forall>hs s2. allocate_n small_heap 3 s = Some (Inr hs, s2) \<longrightarrow>
            length (allocatedChunks (snd s2)) = 2 \<and> distinct hs)"
proof -
  have con: "malloc_contract small_heap (16 * 2)"
    by (rule small_heap_contract) simp
  have sz: "sizeof_Node \<le> (16 :: size_t)" "(2 :: size_t) \<noteq> 0"
    "unat (16 :: size_t) * unat (2 :: size_t) < 2 ^ 64"
    by (simp_all add: sizeof_Node_def)
  obtain s where ctor: "MemoryPool_ctor small_heap world0 16 2 = (Inr (), s)"
    by (simp add: MemoryPool_ctor_def allocateChunk_def small_heap_def world0_def Let_def)
  have run0: "run small_heap [] s [] = Some (s, [])" by simp
  have "unat (2 :: size_t) = 2" "Suc (unat (2 :: size_t)) = 3" by simp_all
  then show ?thesis
    using linked_pool_growth_trigger [OF con sz ctor]
      linked_pool_handles [OF con sz ctor run0] ctor
    by (metis (no_types, lifting))
qed

text \<open>The constructor leaves the requested block size in the member, whatever it is.\<close>

lemma ctor_stores_requested_size:
  "blockSize (snd (snd (MemoryPool_ctor M w bs bc))) = bs"
  by (simp add: MemoryPool_ctor_def allocateChunk_def Let_def populate_fields)

section \<open>One thread alone\<close>

text \<open>The three steps that a thread takes for a call, when no other thread runs in
  between, are the call of the one-thread model: \<^verbatim>\<open>deallocate\<close>, and \<^verbatim>\<open>allocate\<close> on a free
  list that is not empty.\<close>

lemma deallocate_alone:
  assumes "pc t = Ready" "todo t = Deallocate b # cs" "b \<in> set (holds t)"
  shows "interleave M [0, 0, 0] (s, [t]) =
           (deallocate b s, [t\<lparr>todo := cs, holds := remove1 b (holds t)\<rparr>])"
  using assms by (cases s) (simp add: thread_step_def deallocate_def)

lemma allocate_alone:
  assumes "pc t = Ready" "todo t = Allocate # cs" "freeList (snd s) \<noteq> 0"
  shows "allocate M s = Some (Inr (freeList (snd s)), fst (interleave M [0, 0, 0] (s, [t])))
       \<and> snd (interleave M [0, 0, 0] (s, [t])) =
           [t\<lparr>todo := cs, holds := freeList (snd s) # holds t\<rparr>]"
  using assms by (cases s) (simp add: thread_step_def allocate_nonempty)

section \<open>Running the pool on a machine\<close>

lemma allocate_n_numeral:
  "allocate_n M (numeral k) s =
     (case allocate M s of
        None \<Rightarrow> None
      | Some (Inl e, s') \<Rightarrow> Some (Inl e, s')
      | Some (Inr b, s') \<Rightarrow>
          (case allocate_n M (pred_numeral k) s' of
             None \<Rightarrow> None
           | Some (Inl e, s'') \<Rightarrow> Some (Inl e, s'')
           | Some (Inr bs, s'') \<Rightarrow> Some (Inr (b # bs), s'')))"
  by (simp add: numeral_eq_Suc)


text \<open>A free list of two nodes, said without the list.\<close>

lemma flist_two:
  "(\<exists>xs. length xs = 2 \<and> flist m h xs) \<longleftrightarrow>
   h \<noteq> 0 \<and> load_next m h \<noteq> 0 \<and> load_next m (load_next m h) = 0"
proof
  assume "\<exists>xs. length xs = 2 \<and> flist m h xs"
  then obtain xs where l: "length xs = 2" and f: "flist m h xs" by blast
  from l obtain x y where "xs = [x, y]"
    by (auto simp: numeral_2_eq_2 length_Suc_conv)
  with f show "h \<noteq> 0 \<and> load_next m h \<noteq> 0 \<and> load_next m (load_next m h) = 0"
    by auto
next
  assume "h \<noteq> 0 \<and> load_next m h \<noteq> 0 \<and> load_next m (load_next m h) = 0"
  then have "length [h, load_next m h] = 2 \<and> flist m h [h, load_next m h]" by simp
  then show "\<exists>xs. length xs = 2 \<and> flist m h xs" by blast
qed

text \<open>Rewrite rules that run the pool on a concrete machine.\<close>

lemmas run_simps =
  MemoryPool_ctor_def allocateChunk_def small_heap_def world0_def Let_def
  populate.simps deallocate_def allocate_nonempty

lemmas mem_simps = load_next_def store_next_def word_rcat_def upt_rec


section \<open>The claims\<close>

text \<open>
  C1. The claim: a requested block size below \<^verbatim>\<open>sizeof(Node)\<close> is raised to it, and the
  raised size is what chunks are sized and carved with. The code, constructed with a block
  size of 4 and two blocks per chunk on the heap \<open>small_heap\<close>: the member keeps 4, below
  \<open>sizeof_Node\<close>; the one chunk, at 0x1000, is asked for with 8 bytes; and the two blocks
  that \<^verbatim>\<open>allocate\<close> hands out, 0x1004 and 0x1000, are 4 bytes apart. (The member keeps the
  requested size whatever it is: \<open>ctor_stores_requested_size\<close>.)
\<close>

theorem ctor_keeps_small_block_size:
  "\<exists>w p s1 s2.
     MemoryPool_ctor small_heap world0 4 2 = (Inr (), (w, p))
     \<and> blockSize p = 4 \<and> blockSize p < sizeof_Node
     \<and> allocatedChunks p = [0x1000] \<and> blockSize p * blockCount p = 8
     \<and> allocate small_heap (w, p) = Some (Inr 0x1004, s1)
     \<and> allocate small_heap s1 = Some (Inr 0x1000, s2)"
  by (simp add: run_simps mem_simps sizeof_Node_def)

text \<open>
  C2. The claim: along a balanced run of \<^verbatim>\<open>allocate\<close> and \<^verbatim>\<open>deallocate\<close> the chunks do not
  become fewer, and after it the free list is as long as chunks times blocks per chunk,
  less the blocks held. The code, constructed with a block size of 4 and two blocks per
  chunk, after one \<^verbatim>\<open>allocate\<close> and the \<^verbatim>\<open>deallocate\<close> of its block: one chunk of two blocks,
  no block held, and the free list is not a list of two nodes. The link of the block at
  0x1004 lies over the upper half of the link of the block at 0x1000, so the list does not
  end after the second block. For pools whose blocks can hold a link the claim holds:
  \<open>linked_pool_conservation\<close>.
\<close>

theorem small_blocks_free_list_not_two:
  "\<exists>w p b s1 w2 p2.
     MemoryPool_ctor small_heap world0 4 2 = (Inr (), (w, p))
     \<and> allocate small_heap (w, p) = Some (Inr b, s1)
     \<and> deallocate b s1 = (w2, p2)
     \<and> length (allocatedChunks p2) * unat (blockCount p2) = 2
     \<and> \<not> (\<exists>xs. length xs = 2 \<and> flist (mem w2) (freeList p2) xs)"
  by (simp add: flist_two) (simp add: run_simps mem_simps)

text \<open>
  C3. The claim: on a fresh pool of \<open>n\<close> blocks per chunk, \<open>n\<close> calls of \<^verbatim>\<open>allocate\<close> leave
  the pool with its first chunk and \<open>n + 1\<close> calls acquire exactly two chunks. The code,
  constructed with a block size of 4 and two blocks per chunk: the third \<^verbatim>\<open>allocate\<close> finds
  a head that is not null, 0x100000000000, which is what the overlapping links of the two
  blocks read as; it returns that head and acquires nothing, so the pool still has its
  one chunk and \<^verbatim>\<open>malloc\<close> was called once. (A machine on which that address cannot be read
  stops the third call at its read of \<^verbatim>\<open>head->next\<close>; a second chunk is acquired in
  neither case.) For pools whose blocks can hold a link the claim holds:
  \<open>linked_pool_growth_trigger\<close>.
\<close>

theorem third_allocate_of_small_blocks_does_not_grow:
  "\<exists>w p s.
     MemoryPool_ctor small_heap world0 4 2 = (Inr (), (w, p))
     \<and> allocate_n small_heap 3 (w, p) = Some (Inr [0x1004, 0x1000, 0x100000000000], s)
     \<and> allocatedChunks (snd s) = [0x1000]
     \<and> malloc_calls (fst s) = 1"
  by (simp add: run_simps mem_simps allocate_n_numeral)

text \<open>
  C4. The claim: the handles of \<open>N\<close> calls of \<^verbatim>\<open>allocate\<close> in a row are distinct and lie in
  chunks of the pool. The code, constructed with a block size of 4 and two blocks per
  chunk: the third of three handles is 0x100000000000, outside the only chunk, the 8
  bytes at 0x1000. (A machine on which that address cannot be read stops the third call
  at its read of \<^verbatim>\<open>head->next\<close>, and there is no third handle.) For pools whose blocks can
  hold a link the claim holds: \<open>linked_pool_handles\<close>.
\<close>

theorem third_handle_of_small_blocks_outside_chunk:
  "\<exists>w p hs s.
     MemoryPool_ctor small_heap world0 4 2 = (Inr (), (w, p))
     \<and> allocate_n small_heap 3 (w, p) = Some (Inr hs, s)
     \<and> allocatedChunks (snd s) = [0x1000]
     \<and> hs ! 2 = 0x100000000000
     \<and> \<not> in_chunk (snd s) 0x1000 (hs ! 2)"
  by (simp add: run_simps mem_simps allocate_n_numeral in_chunk_def)

text \<open>
  C5. The claim: a growth cycle records the chunk, then pushes its blocks, and leaves the
  free list longer by exactly the blocks of the new chunk. The code, growing the empty
  pool of two blocks of 4 bytes: the chunk at 0x1000 is recorded and its blocks 0x1000 and
  0x1004 are pushed with \<^verbatim>\<open>deallocate\<close>, but the link written for the second overwrites half
  of the link of the first, so the list that starts at 0x1004 goes on after 0x1000, to
  0x100000000000: it is not the two blocks. For pools whose blocks can hold a link the
  claim holds: \<open>linked_pool_growth\<close>.
\<close>

theorem growth_of_small_blocks_corrupts_free_list:
  "\<exists>w p.
     allocateChunk small_heap (world0, tiny_pool) = (Inr (), (w, p))
     \<and> allocatedChunks p = [0x1000]
     \<and> freeList p = 0x1004
     \<and> load_next (mem w) 0x1004 = 0x1000
     \<and> load_next (mem w) 0x1000 = 0x100000000000
     \<and> \<not> flist (mem w) (freeList p) [0x1004, 0x1000]"
  by (simp add: run_simps mem_simps tiny_pool_def)

text \<open>
  C6. When \<^verbatim>\<open>malloc\<close> returns the null pointer in a growth cycle, \<^verbatim>\<open>allocateChunk\<close> throws
  \<^verbatim>\<open>bad_alloc\<close>, and so does the \<^verbatim>\<open>allocate\<close> that found the free list empty and the
  constructor in its first growth: each ends after that one \<^verbatim>\<open>malloc\<close> call, with the
  pool object as it was (no chunk recorded, the head unchanged) and the memory, where the
  links of the free list live, untouched.
\<close>

theorem failed_malloc_throws_and_changes_nothing:
  assumes "M (malloc_calls w) (blockSize p * blockCount p) = 0"
  shows "allocateChunk M (w, p) = (Inl bad_alloc, (w\<lparr>malloc_calls := Suc (malloc_calls w)\<rparr>, p))
       \<and> (freeList p = 0 \<longrightarrow>
            allocate M (w, p) = Some (Inl bad_alloc, (w\<lparr>malloc_calls := Suc (malloc_calls w)\<rparr>, p)))
       \<and> MemoryPool_ctor M w (blockSize p) (blockCount p) =
            (Inl bad_alloc, (w\<lparr>malloc_calls := Suc (malloc_calls w)\<rparr>,
                             \<lparr>freeList = 0, allocatedChunks = [],
                              blockSize = blockSize p, blockCount = blockCount p\<rparr>))"
  using assms by (simp add: allocate_empty allocateChunk_def MemoryPool_ctor_def)

theorem failed_malloc_throws_and_changes_nothing_witness:
  "allocateChunk small_heap (world0, big_pool)
     = (Inl bad_alloc, (world0\<lparr>malloc_calls := 1\<rparr>, big_pool))
   \<and> allocate small_heap (world0, big_pool)
     = Some (Inl bad_alloc, (world0\<lparr>malloc_calls := 1\<rparr>, big_pool))
   \<and> MemoryPool_ctor small_heap world0 64 8
     = (Inl bad_alloc, (world0\<lparr>malloc_calls := 1\<rparr>, big_pool))"
proof -
  have h: "small_heap (malloc_calls world0) (blockSize big_pool * blockCount big_pool) = 0"
    by (simp add: small_heap_def big_pool_def)
  show ?thesis
    using failed_malloc_throws_and_changes_nothing
            [where M = small_heap and w = world0 and p = big_pool] h
    by (simp add: big_pool_def world0_def)
qed

text \<open>
  C7. After a move, the source owns no chunk and its free list is empty, and the
  destination has the chunk list and the head the source had; the memory that holds the
  links is not touched. This holds for the move constructor, and for the move assignment
  between two different objects \<open>d\<close> and \<open>s\<close>, which also hands the chunks the destination
  had to \<^verbatim>\<open>std::free\<close>.
\<close>

theorem move_leaves_source_empty:
  "(case move_ctor src of (dst, src') \<Rightarrow>
      allocatedChunks src' = [] \<and> freeList src' = 0
      \<and> allocatedChunks dst = allocatedChunks src \<and> freeList dst = freeList src)
   \<and> (d \<noteq> s \<longrightarrow>
       (case move_assign d s (w, objs) of (w', objs') \<Rightarrow>
          allocatedChunks (objs' s) = [] \<and> freeList (objs' s) = 0
          \<and> allocatedChunks (objs' d) = allocatedChunks (objs s)
          \<and> freeList (objs' d) = freeList (objs s)
          \<and> mem w' = mem w
          \<and> freed w' = freed w @ allocatedChunks (objs d)))"
  by (simp add: move_ctor_def move_assign_def Let_def)

theorem move_leaves_source_empty_witness:
  "(case move_ctor (two_pools 1) of (dst, src') \<Rightarrow>
      allocatedChunks src' = [] \<and> freeList src' = 0
      \<and> allocatedChunks dst = [0x1000] \<and> freeList dst = 0x1010)
   \<and> (case move_assign 0 1 (world0, two_pools) of (w', objs') \<Rightarrow>
          allocatedChunks (objs' 1) = [] \<and> freeList (objs' 1) = 0
          \<and> allocatedChunks (objs' 0) = [0x1000]
          \<and> freeList (objs' 0) = 0x1010
          \<and> mem w' = mem world0
          \<and> freed w' = [0x2000])"
  using move_leaves_source_empty
    [where src = "two_pools 1" and d = 0 and s = 1 and w = world0 and objs = two_pools]
  by (simp add: two_pools_def world0_def)

text \<open>
  C8. The claim: however the calls of \<open>T\<close> threads on one pool interleave, nothing is
  corrupted, and in the end the free list has as many blocks as the chunks have, less the
  blocks that callers hold. The code, on the pool of two blocks of 16 bytes whose chunk is
  at 0x1000, with the two threads \<open>thread_A\<close> (thread 0) and \<open>thread_B\<close> (thread 1) of
  three calls each, scheduled by \<open>aba_schedule\<close>: thread 0 loads the head 0x1010 and reads
  its link, 0x1000; thread 1 then takes 0x1010 and 0x1000 and gives 0x1010 back; the
  compare-and-swap of thread 0 finds the head it expects, 0x1010, and makes the link it
  read before, 0x1000, the head, although thread 1 holds that block; thread 0 then gives
  0x1010 back and takes it again. In the end every call has returned and each thread
  holds one of the two blocks of the only chunk, so no block is free; but the free list
  has one node, the block 0x1000 that thread 1 holds, and the next \<^verbatim>\<open>allocate()\<close> hands it
  out a second time.
\<close>

theorem stale_next_puts_held_block_on_free_list:
  "\<exists>s0 w p tA tB s'.
     MemoryPool_ctor small_heap world0 16 2 = (Inr (), s0)
     \<and> interleave small_heap aba_schedule (s0, [thread_A, thread_B]) = ((w, p), [tA, tB])
     \<and> pc tA = Ready \<and> todo tA = [] \<and> holds tA = [0x1010]
     \<and> pc tB = Ready \<and> todo tB = [] \<and> holds tB = [0x1000]
     \<and> allocatedChunks p = [0x1000] \<and> blockCount p = 2
     \<and> flist (mem w) (freeList p) [0x1000]
     \<and> allocate small_heap (w, p) = Some (Inr 0x1000, s')"
  by (simp add: run_simps mem_simps thread_step_def aba_schedule_def thread_A_def thread_B_def)

text \<open>
  C9. In sequential use the free list is a LIFO stack: a block \<open>b\<close> that an earlier
  \<^verbatim>\<open>allocate\<close> returned, given back with \<^verbatim>\<open>deallocate(b)\<close> in any state of the pool, is what
  the next \<^verbatim>\<open>allocate()\<close> returns; that call makes no \<^verbatim>\<open>malloc\<close> call and leaves the pool
  object (head, chunk list and sizes) as it was before the block was given back.
\<close>

theorem deallocate_then_allocate_returns_block:
  assumes "allocate M s0 = Some (Inr b, s1)"
  shows "\<exists>w'. allocate M (deallocate b (w, p)) = Some (Inr b, (w', p))
           \<and> malloc_calls w' = malloc_calls w"
proof -
  have "b \<noteq> 0"
    using assms by (rule allocate_nonnull)
  then have "freeList (snd (deallocate b (w, p))) \<noteq> 0"
    by (simp add: deallocate_def)
  then show ?thesis
    by (simp add: allocate_nonempty) (simp add: deallocate_def load_store_same)
qed

theorem deallocate_then_allocate_returns_block_witness:
  "\<exists>s1 w'.
     allocate small_heap (snd (MemoryPool_ctor small_heap world0 16 2)) = Some (Inr 0x1010, s1)
     \<and> freeList (snd s1) = 0x1000
     \<and> allocate small_heap (deallocate 0x1010 s1) = Some (Inr 0x1010, (w', snd s1))
     \<and> malloc_calls w' = malloc_calls (fst s1)"
proof -
  have "\<exists>s1. allocate small_heap (snd (MemoryPool_ctor small_heap world0 16 2))
          = Some (Inr 0x1010, s1) \<and> freeList (snd s1) = 0x1000"
    by (simp add: run_simps mem_simps)
  then obtain s1 where
    h: "allocate small_heap (snd (MemoryPool_ctor small_heap world0 16 2)) = Some (Inr 0x1010, s1)"
    and hd: "freeList (snd s1) = 0x1000"
    by blast
  show ?thesis
    using deallocate_then_allocate_returns_block [OF h, of "fst s1" "snd s1"] h hd
    by simp
qed




end
